theory Spec2Isabelle
  imports Main
begin

section \<open>Strings and characters of the host language\<close>

text \<open>
  The analyzer is TypeScript. A string of the source is a sequence of UTF-16 code units,
  \<open>length\<close> counts code units and \<open>substring\<close> cuts between code units. A code unit is
  modelled as an integer (its value, from 0 to 65535) and a string as a list of them, so
  that the theorems quantify over every string the function can receive. The literals of
  the source are ASCII; \<open>js\<close> turns an Isabelle literal into such a string.
\<close>

type_synonym jschar = int
type_synonym jsstring = "jschar list"

definition js :: "string \<Rightarrow> jsstring" where
  "js s = map of_char s"

text \<open>
  White space of ECMAScript (WhiteSpace and LineTerminator): the characters removed by
  \<open>String.prototype.trim\<close> and matched by the class escape \<open>\s\<close>.
\<close>

definition is_line_terminator :: "jschar \<Rightarrow> bool" where
  "is_line_terminator c = (c = 10 \<or> c = 13 \<or> c = 8232 \<or> c = 8233)"

definition is_space :: "jschar \<Rightarrow> bool" where
  "is_space c =
     ((9 \<le> c \<and> c \<le> 13) \<or> c = 32 \<or> c = 160 \<or> c = 5760 \<or> (8192 \<le> c \<and> c \<le> 8202)
      \<or> c = 8232 \<or> c = 8233 \<or> c = 8239 \<or> c = 8287 \<or> c = 12288 \<or> c = 65279)"

text \<open>The class escape \<open>\w\<close>: ASCII letters, digits and the underscore.\<close>

definition is_word :: "jschar \<Rightarrow> bool" where
  "is_word c = ((48 \<le> c \<and> c \<le> 57) \<or> (65 \<le> c \<and> c \<le> 90) \<or> c = 95 \<or> (97 \<le> c \<and> c \<le> 122))"

definition trim :: "jsstring \<Rightarrow> jsstring" where
  "trim s = rev (dropWhile is_space (rev (dropWhile is_space s)))"

text \<open>
  Template literals print a number in decimal; the counts printed by the analyzer are
  natural numbers.
\<close>

function numToString :: "nat \<Rightarrow> jsstring" where
  "numToString n =
     (if n < 10 then [48 + int n] else numToString (n div 10) @ [48 + int (n mod 10)])"
  by pat_completeness auto
termination
  by (relation "measure (\<lambda>n. n)") auto

declare numToString.simps [simp del]

section \<open>Regular expressions of the host language\<close>

text \<open>
  The rule tables are written with regular expression literals. The fragment they use is:
  literal characters, character classes (also negated), the escapes \<open>\s\<close> and \<open>\w\<close>,
  the dot, sequence, alternation, the greedy quantifiers \<open>*\<close>, \<open>+\<close> and \<open>?\<close>,
  negative lookahead, the word boundary \<open>\b\<close> and the end anchor \<open>$\<close>, with the flags
  \<open>g\<close>, \<open>i\<close> and \<open>m\<close>. No pattern has a back reference, and the analyzer reads only the
  index and the text of the whole match, so groups need no representation.
\<close>

datatype citem = CChr jschar | CSpace | CWord

datatype rx =
    Eps
  | Chr jschar
  | OneOf "citem list"
  | NoneOf "citem list"
  | Seq rx rx
  | Alt rx rx
  | Star rx
  | Plus rx
  | Opt rx
  | NotAhead rx
  | WordB
  | Eol

record regexp =
  source :: rx
  global :: bool
  ignoreCase :: bool
  multiline :: bool

text \<open>
  Canonicalize of the ECMAScript specification, without the \<open>u\<close> flag: under \<open>i\<close> a
  character is compared by its upper case, and a character outside ASCII is never
  mapped into ASCII. Every character written in the rule tables is ASCII, so only the
  mapping of the ASCII letters decides a comparison.
\<close>

definition canonicalize :: "bool \<Rightarrow> jschar \<Rightarrow> jschar" where
  "canonicalize ic c = (if ic \<and> 97 \<le> c \<and> c \<le> 122 then c - 32 else c)"

fun in_item :: "bool \<Rightarrow> jschar \<Rightarrow> citem \<Rightarrow> bool" where
  "in_item ic x (CChr c) = (canonicalize ic x = canonicalize ic c)"
| "in_item ic x CSpace = is_space x"
| "in_item ic x CWord = is_word x"

text \<open>
  A matcher state is the character before the current position (none at the start of the
  input) and the rest of the input from the current position on.
\<close>

type_synonym mstate = "jschar option \<times> jsstring"

definition is_word_opt :: "jschar option \<Rightarrow> bool" where
  "is_word_opt c = (case c of None \<Rightarrow> False | Some x \<Rightarrow> is_word x)"

definition next_char :: "mstate \<Rightarrow> jschar option" where
  "next_char st = (case snd st of [] \<Rightarrow> None | x # _ \<Rightarrow> Some x)"

definition step_if :: "(jschar \<Rightarrow> bool) \<Rightarrow> mstate \<Rightarrow> mstate list" where
  "step_if ok st = (case snd st of [] \<Rightarrow> [] | x # xs \<Rightarrow> if ok x then [(Some x, xs)] else [])"

text \<open>
  The greedy star. The host's matcher rejects an iteration that consumes nothing; the
  test below is that rule (a matcher of this fragment never moves backwards).
\<close>

function star :: "(mstate \<Rightarrow> mstate list) \<Rightarrow> mstate \<Rightarrow> mstate list" where
  "star f st =
     concat (map (\<lambda>st'. if length (snd st') < length (snd st) then star f st' else []) (f st)) @ [st]"
  by pat_completeness auto
termination
  by (relation "measure (\<lambda>(f, st). length (snd st))") auto

declare star.simps [simp del]

text \<open>
  The backtracking matcher: all the states in which a match of the expression started at
  \<open>st\<close> can end, in the order in which the host's matcher tries them. The host returns
  the first one.
\<close>

fun matcher :: "bool \<Rightarrow> bool \<Rightarrow> rx \<Rightarrow> mstate \<Rightarrow> mstate list" where
  "matcher ic ml Eps st = [st]"
| "matcher ic ml (Chr c) st = step_if (\<lambda>x. canonicalize ic x = canonicalize ic c) st"
| "matcher ic ml (OneOf cs) st = step_if (\<lambda>x. list_ex (in_item ic x) cs) st"
| "matcher ic ml (NoneOf cs) st = step_if (\<lambda>x. \<not> list_ex (in_item ic x) cs) st"
| "matcher ic ml (Seq r1 r2) st = concat (map (matcher ic ml r2) (matcher ic ml r1 st))"
| "matcher ic ml (Alt r1 r2) st = matcher ic ml r1 st @ matcher ic ml r2 st"
| "matcher ic ml (Star r) st = star (matcher ic ml r) st"
| "matcher ic ml (Plus r) st = concat (map (star (matcher ic ml r)) (matcher ic ml r st))"
| "matcher ic ml (Opt r) st = matcher ic ml r st @ [st]"
| "matcher ic ml (NotAhead r) st = (if matcher ic ml r st = [] then [st] else [])"
| "matcher ic ml WordB st =
     (if is_word_opt (fst st) \<noteq> is_word_opt (next_char st) then [st] else [])"
| "matcher ic ml Eol st =
     (case snd st of [] \<Rightarrow> [st] | x # _ \<Rightarrow> if ml \<and> is_line_terminator x then [st] else [])"

text \<open>
  The search of \<open>RegExp.prototype.exec\<close>: try the current position, then each later one,
  up to and including the end of the input. \<open>i\<close> is the index of the current position.
\<close>

fun search :: "regexp \<Rightarrow> nat \<Rightarrow> jschar option \<Rightarrow> jsstring \<Rightarrow> (nat \<times> jsstring) option" where
  "search re i prev [] =
     (case matcher (ignoreCase re) (multiline re) (source re) (prev, []) of
        [] \<Rightarrow> None
      | e # _ \<Rightarrow> Some (i, []))"
| "search re i prev (x # xs) =
     (case matcher (ignoreCase re) (multiline re) (source re) (prev, x # xs) of
        [] \<Rightarrow> search re (Suc i) (Some x) xs
      | e # _ \<Rightarrow> Some (i, take (length (x # xs) - length (snd e)) (x # xs)))"

definition char_before :: "jsstring \<Rightarrow> nat \<Rightarrow> jschar option" where
  "char_before s i = (if i = 0 then None else Some (s ! (i - 1)))"

text \<open>
  \<open>regex.exec(s)\<close> on a regular expression object whose \<open>lastIndex\<close> is given: the match
  (its index and its text) if there is one, and the new \<open>lastIndex\<close>.
\<close>

definition regex_exec :: "regexp \<Rightarrow> jsstring \<Rightarrow> nat \<Rightarrow> (nat \<times> jsstring) option \<times> nat" where
  "regex_exec re s lastIndex =
     (let i = (if global re then lastIndex else 0) in
      if length s < i then (None, 0)
      else (case search re i (char_before s i) (drop i s) of
              None \<Rightarrow> (None, if global re then 0 else lastIndex)
            | Some (idx, m0) \<Rightarrow>
                (Some (idx, m0), if global re then idx + length m0 else lastIndex)))"


text \<open>
  \<open>s.match(re)\<close> for a regular expression with the \<open>g\<close> flag: the texts of all the
  matches, found by calling \<open>exec\<close> repeatedly from \<open>lastIndex = 0\<close>; after an empty
  match \<open>lastIndex\<close> is advanced by one. \<open>None\<close> is the host's \<open>null\<close>, returned when
  there is no match. (Without \<open>g\<close> the host does not run this loop.)
\<close>

lemma search_bounds:
  "search re i prev xs = Some (idx, m0) \<Longrightarrow> i \<le> idx \<and> idx + length m0 \<le> i + length xs"
proof (induction xs arbitrary: i prev)
  case Nil
  then show ?case by (auto split: list.splits)
next
  case (Cons x xs)
  show ?case
  proof (cases "matcher (ignoreCase re) (multiline re) (source re) (prev, x # xs)")
    case Nil
    with Cons.prems have "search re (Suc i) (Some x) xs = Some (idx, m0)" by simp
    from Cons.IH [OF this] show ?thesis by simp
  next
    case (Cons e es)
    with Cons.prems show ?thesis by auto
  qed
qed

lemma regex_exec_bounds:
  assumes "regex_exec re s i = (Some (idx, m0), li)" and "global re"
  shows "i \<le> idx \<and> li = idx + length m0 \<and> li \<le> length s \<and> i \<le> length s"
proof -
  from assms have le: "i \<le> length s"
    by (auto simp: regex_exec_def Let_def split: if_splits)
  with assms obtain "search re i (char_before s i) (drop i s) = Some (idx, m0)"
    and "li = idx + length m0"
    by (auto simp: regex_exec_def Let_def split: option.splits if_splits)
  with search_bounds [of re i "char_before s i" "drop i s" idx m0] le show ?thesis
    by simp
qed

function match_all :: "regexp \<Rightarrow> jsstring \<Rightarrow> nat \<Rightarrow> jsstring list" where
  "match_all re s lastIndex =
     (if \<not> global re then []
      else (case regex_exec re s lastIndex of
              (None, _) \<Rightarrow> []
            | (Some (idx, m0), li) \<Rightarrow> m0 # match_all re s (if m0 = [] then li + 1 else li)))"
  by pat_completeness auto
termination
proof (relation "measure (\<lambda>(re, s, i). Suc (length s) - i)", goal_cases)
  case 1
  show ?case by simp
next
  case (2 re s lastIndex x1 x2 x3 idx m0)
  then have "regex_exec re s lastIndex = (Some (idx, m0), x2)" and "global re"
    by simp_all
  from regex_exec_bounds [OF this] show ?case
    by (cases m0) auto
qed

declare match_all.simps [simp del]

definition string_match :: "jsstring \<Rightarrow> regexp \<Rightarrow> jsstring list option" where
  "string_match s re = (case match_all re s 0 of [] \<Rightarrow> None | m0 # ms \<Rightarrow> Some (m0 # ms))"

section \<open>The rule tables\<close>

datatype severity = Error | Warning | Info

record pattern =
  regex :: regexp
  ptype :: severity
  pcategory :: jsstring
  pmessage :: jsstring
  psuggestion :: "jsstring option"
  fixCode :: "jsstring option"

text \<open>Shorthands for writing the regular expression literals of the source.\<close>

definition lit :: "string \<Rightarrow> rx" where
  "lit s = foldr (\<lambda>c. Seq (Chr (of_char c))) s Eps"

definition seqs :: "rx list \<Rightarrow> rx" where
  "seqs rs = foldr Seq rs Eps"

fun alts :: "rx list \<Rightarrow> rx" where
  "alts [] = Eps"
| "alts [r] = r"
| "alts (r # rs) = Alt r (alts rs)"

definition sp :: rx where
  "sp = OneOf [CSpace]"

definition wd :: rx where
  "wd = OneOf [CWord]"

definition dot :: rx where
  "dot = NoneOf [CChr 10, CChr 13, CChr 8232, CChr 8233]"

definition one_of :: "string \<Rightarrow> rx" where
  "one_of s = OneOf (map (\<lambda>c. CChr (of_char c)) s)"

definition none_of :: "string \<Rightarrow> rx" where
  "none_of s = NoneOf (map (\<lambda>c. CChr (of_char c)) s)"

definition quotes :: "citem list" where
  "quotes = [CChr 39, CChr 34]"

definition re_g :: "rx \<Rightarrow> regexp" where
  "re_g r = \<lparr>source = r, global = True, ignoreCase = False, multiline = False\<rparr>"

definition re_gi :: "rx \<Rightarrow> regexp" where
  "re_gi r = \<lparr>source = r, global = True, ignoreCase = True, multiline = False\<rparr>"

definition re_gm :: "rx \<Rightarrow> regexp" where
  "re_gm r = \<lparr>source = r, global = True, ignoreCase = False, multiline = True\<rparr>"

definition rule :: "regexp \<Rightarrow> severity \<Rightarrow> string \<Rightarrow> jsstring \<Rightarrow> jsstring option \<Rightarrow> jsstring option \<Rightarrow> pattern" where
  "rule re t c m s f =
     \<lparr>regex = re, ptype = t, pcategory = js c, pmessage = m, psuggestion = s, fixCode = f\<rparr>"

definition CODE_PATTERNS :: "pattern list" where
  "CODE_PATTERNS = [
     rule (re_g (seqs [lit ''console.'',
                       alts [lit ''log'', lit ''debug'', lit ''info'', lit ''warn'', lit ''error''],
                       Star sp, lit ''('']))
       Warning ''Security''
       (js ''Console statement found - should be removed in production'')
       (Some (js ''Remove console statements or use a logging library with environment checks''))
       None,
     rule (re_gi (seqs [alts [lit ''password'', lit ''secret'',
                              seqs [lit ''api'', Opt (one_of ''_-''), lit ''key''], lit ''token''],
                        Star sp, one_of '':='', Star sp, OneOf quotes, Plus (NoneOf quotes),
                        OneOf quotes]))
       Error ''Security''
       (js ''Potential hardcoded secret detected'')
       (Some (js ''Use environment variables instead of hardcoding secrets''))
       None,
     rule (re_g (seqs [lit ''eval'', Star sp, lit ''('']))
       Error ''Security''
       (js ''eval() is dangerous and can lead to code injection'')
       (Some (js ''Avoid eval() - use safer alternatives like JSON.parse() for data''))
       None,
     rule (re_g (seqs [lit ''innerHTML'', Star sp, lit ''='']))
       Warning ''Security''
       (js ''innerHTML can lead to XSS vulnerabilities'')
       (Some (js ''Use textContent or sanitize HTML with DOMPurify''))
       None,
     rule (re_g (lit ''dangerouslySetInnerHTML''))
       Warning ''Security''
       (js ''dangerouslySetInnerHTML can lead to XSS attacks'')
       (Some (js ''Sanitize content with DOMPurify before rendering''))
       None,
     rule (re_g (seqs [lit ''catch'', Star sp, lit ''('', Star (none_of '')''), lit '')'',
                       Star sp, lit ''{'', Star sp, lit ''}'']))
       Error ''Error Handling''
       (js ''Empty catch block - errors are silently ignored'')
       (Some (js ''Log errors or handle them appropriately''))
       (Some (js ''catch (error) {'' @ [10] @ js ''  console.error('Error:', error);'' @ [10]
              @ js ''  // Handle error appropriately'' @ [10] @ js ''}'')),
     rule (re_g (seqs [lit ''.catch'', Star sp, lit ''('', Star sp, lit ''('', Star sp, lit '')'',
                       Star sp, lit ''=>'', Star sp, lit ''{'', Star sp, lit ''}'', Star sp,
                       lit '')'']))
       Error ''Error Handling''
       (js ''Empty .catch() handler - Promise errors are silently ignored'')
       (Some (js ''Handle Promise rejections properly''))
       None,
     rule (re_gm (seqs [lit ''async'', Plus sp, lit ''function'', Plus (none_of ''{''), lit ''{'',
                        Star (Seq (NotAhead (seqs [lit ''try'', Star sp, lit ''{''])) dot),
                        lit ''}'', Eol]))
       Warning ''Error Handling''
       (js ''Async function without try-catch block'')
       (Some (js ''Wrap async code in try-catch for proper error handling''))
       None,
     rule (re_g (seqs [lit ''var'', Plus sp, Plus wd]))
       Warning ''Code Quality''
       (js ''Using 'var' instead of 'let' or 'const'' @ [39])
       (Some (js ''Use 'const' for constants, 'let' for variables that change''))
       None,
     rule (re_g (seqs [lit ''=='', NotAhead (lit ''='')]))
       Warning ''Code Quality''
       (js ''Using loose equality (==) instead of strict equality (===)'')
       (Some (js ''Use === for strict type comparison''))
       None,
     rule (re_g (seqs [lit ''!='', NotAhead (lit ''='')]))
       Warning ''Code Quality''
       (js ''Using loose inequality (!=) instead of strict inequality (!==)'')
       (Some (js ''Use !== for strict type comparison''))
       None,
     rule (re_gi (seqs [lit ''//'', Star sp, lit ''TODO'']))
       Info ''Code Quality''
       (js ''TODO comment found - incomplete implementation'')
       (Some (js ''Complete the TODO or create a tracked issue''))
       None,
     rule (re_gi (seqs [lit ''//'', Star sp, lit ''FIXME'']))
       Warning ''Code Quality''
       (js ''FIXME comment found - known issue needs attention'')
       (Some (js ''Fix the issue or create a tracked bug report''))
       None,
     rule (re_gi (seqs [lit ''//'', Star sp, lit ''HACK'']))
       Warning ''Code Quality''
       (js ''HACK comment found - workaround in place'')
       (Some (js ''Consider refactoring to a proper solution''))
       None,
     rule (re_g (seqs [lit ''debugger'', Star sp, Opt (lit '';'')]))
       Error ''Code Quality''
       (js ''Debugger statement found - must be removed for production'')
       (Some (js ''Remove debugger statements before deploying''))
       None,
     rule (re_g (seqs [lit ''key'', Star sp, lit ''='', Star sp, Opt (lit ''{''), Star sp,
                       lit ''index'', Star sp, Opt (lit ''}'')]))
       Warning ''React''
       (js ''Using array index as key - can cause rendering issues'')
       (Some (js ''Use unique identifiers instead of array indices as keys''))
       None,
     rule (re_g (seqs [lit ''useEffect'', Star sp, lit ''('', Star sp, lit ''async'']))
       Error ''React''
       (js ''useEffect callback should not be async directly'')
       (Some (js ''Define async function inside useEffect and call it''))
       (Some (js ''useEffect(() => {'' @ [10] @ js ''  const fetchData = async () => {'' @ [10]
              @ js ''    // async code here'' @ [10] @ js ''  };'' @ [10] @ js ''  fetchData();''
              @ [10] @ js ''}, []);'')),
     rule (re_g (seqs [lit ''useState'', Star sp, lit ''<'', Plus (none_of ''>''), lit ''>'',
                       Star sp, lit ''('', Star sp, lit ''['', Star sp, lit '']'', Star sp,
                       lit '')'']))
       Info ''React''
       (js ''Consider using useMemo for expensive array initializations'')
       (Some (js ''If this array requires computation, use useMemo''))
       None,
     rule (re_g (seqs [lit '':'', Star sp, lit ''any'', WordB]))
       Warning ''TypeScript''
       (js ''Using 'any' type defeats TypeScript's type safety'')
       (Some (js ''Define proper types or use 'unknown' for truly unknown types''))
       None,
     rule (re_g (lit ''@ts-ignore''))
       Warning ''TypeScript''
       (js ''@ts-ignore suppresses type checking'')
       (Some (js ''Fix the type error instead of ignoring it''))
       None,
     rule (re_g (seqs [lit ''as'', Plus sp, lit ''any'', WordB]))
       Warning ''TypeScript''
       (js ''Type assertion to 'any' bypasses type checking'')
       (Some (js ''Use proper type narrowing or define correct types''))
       None,
     rule (re_g (seqs [lit ''if'', Star sp, lit ''('', Star (none_of '')''), lit '')'', Star sp,
                       lit '';'']))
       Error ''Potential Bug''
       (js ''Empty if statement - likely a typo'')
       (Some (js ''Remove the semicolon or add the intended code block''))
       None,
     rule (re_g (seqs [lit ''for'', Star sp, lit ''('', Star (none_of '')''), lit '')'', Star sp,
                       lit '';'']))
       Error ''Potential Bug''
       (js ''Empty for loop - likely a typo'')
       (Some (js ''Remove the semicolon or add the intended code block''))
       None,
     rule (re_g (seqs [lit ''return'', Star sp, Chr 10, Star sp, lit ''{'']))
       Error ''Potential Bug''
       (js ''Return statement with line break before object - returns undefined'')
       (Some (js ''Put the opening brace on the same line as return''))
       None,
     rule (re_g (seqs [lit ''='', Star sp, lit ''='', Star sp, lit ''='']))
       Error ''Potential Bug''
       (js ''Invalid operator (three equals with spaces)'')
       (Some (js ''Use === without spaces for strict equality''))
       None,
     rule (re_g (seqs [lit ''.map('', Plus (none_of '')''), lit '').filter('',
                       Plus (none_of '')''), lit '')'']))
       Info ''Performance''
       (js ''Chained .map().filter() - consider using .reduce() for efficiency'')
       (Some (js ''Use .reduce() to iterate only once''))
       None,
     rule (re_g (lit ''JSON.parse(JSON.stringify(''))
       Warning ''Performance''
       (js ''Deep clone via JSON - slow and loses functions/dates'')
       (Some (js ''Use structuredClone() or a proper deep clone library''))
       None
   ]"

definition TERMINAL_PATTERNS :: "pattern list" where
  "TERMINAL_PATTERNS = [
     rule (re_gi (seqs [lit ''Error:'', Star sp, Plus dot]))
       Error ''Runtime Error'' (js ''Error detected in terminal output'') None None,
     rule (re_gi (seqs [lit ''TypeError:'', Star sp, Plus dot]))
       Error ''Type Error''
       (js ''Type error - likely accessing property of undefined/null'') None None,
     rule (re_gi (seqs [lit ''ReferenceError:'', Star sp, Plus dot]))
       Error ''Reference Error'' (js ''Reference error - undefined variable used'') None None,
     rule (re_gi (seqs [lit ''SyntaxError:'', Star sp, Plus dot]))
       Error ''Syntax Error'' (js ''Syntax error - malformed code'') None None,
     rule (re_gi (lit ''ENOENT''))
       Error ''File System'' (js ''File or directory not found'') None None,
     rule (re_gi (lit ''ECONNREFUSED''))
       Error ''Network'' (js ''Connection refused - service may be down'') None None,
     rule (re_gi (lit ''ETIMEDOUT''))
       Error ''Network'' (js ''Connection timeout - network or service issue'') None None,
     rule (re_gi (lit ''Cannot find module''))
       Error ''Module'' (js ''Missing module - check package.json or imports'') None None,
     rule (re_gi (lit ''deprecated''))
       Warning ''Deprecation'' (js ''Deprecated feature in use'') None None,
     rule (re_gi (lit ''warning''))
       Warning ''Warning'' (js ''Warning detected in terminal output'') None None,
     rule (re_gi (alts [lit ''out of memory'', lit ''heap'', lit ''memory leak'']))
       Error ''Memory'' (js ''Potential memory issue detected'') None None,
     rule (re_gi (alts [lit ''cors'', lit ''cross-origin'']))
       Error ''CORS'' (js ''CORS issue - cross-origin request blocked'') None None,
     rule (re_gi (alts [lit ''401'', lit ''unauthorized'']))
       Error ''Authentication''
       (js ''Authentication error - invalid or missing credentials'') None None,
     rule (re_gi (alts [lit ''403'', lit ''forbidden'']))
       Error ''Authorization''
       (js ''Authorization error - insufficient permissions'') None None,
     rule (re_gi (alts [lit ''404'', lit ''not found'']))
       Warning ''Not Found'' (js ''Resource not found'') None None,
     rule (re_gi (alts [lit ''500'', lit ''internal server error'']))
       Error ''Server Error'' (js ''Internal server error'') None None
   ]"

section \<open>The analyzer\<close>

record issue =
  type :: severity
  category :: jsstring
  message :: jsstring
  line :: "nat option"
  suggestion :: "jsstring option"
  code :: "jsstring option"

record stats_t =
  errors :: nat
  warnings :: nat
  info :: nat

record TraditionalAnalysisResult =
  issues :: "issue list"
  summary :: jsstring
  stats :: stats_t

text \<open>
  \<open>findLineNumber\<close>: the number of matches of \<open>/\n/g\<close> in the text before the match, plus
  one; \<open>substring(0, matchIndex)\<close> is \<open>take\<close>, and \<open>|| []\<close> replaces \<open>null\<close> by the
  empty array.
\<close>

definition findLineNumber :: "jsstring \<Rightarrow> nat \<Rightarrow> nat" where
  "findLineNumber content matchIndex =
     (let beforeMatch = take matchIndex content in
      length (case string_match beforeMatch (re_g (Chr 10)) of None \<Rightarrow> [] | Some ms \<Rightarrow> ms) + 1)"

text \<open>The object pushed for a match of a code rule.\<close>

definition code_issue :: "pattern \<Rightarrow> nat \<Rightarrow> issue" where
  "code_issue p ln =
     \<lparr>type = ptype p, category = pcategory p, message = pmessage p, line = Some ln,
      suggestion = psuggestion p, code = fixCode p\<rparr>"

text \<open>
  The object pushed for a match of a terminal rule; it has no \<open>code\<close> property. The
  message is the template literal of the source, with the match cut by
  \<open>substring(0, 50)\<close>.
\<close>

definition log_issue :: "pattern \<Rightarrow> jsstring \<Rightarrow> nat \<Rightarrow> issue" where
  "log_issue p m0 ln =
     \<lparr>type = ptype p, category = pcategory p,
      message = pmessage p @ js '': '' @ [34] @ take 50 m0
                  @ (if 50 < length m0 then js ''...'' else []) @ [34],
      line = Some ln, suggestion = psuggestion p, code = None\<rparr>"

text \<open>
  The inner \<open>while\<close> loops. Each call of \<open>exec\<close> continues from the \<open>lastIndex\<close> left by
  the previous one; the loop ends when \<open>exec\<close> returns \<open>null\<close>. A loop that does not end
  has the value \<open>None\<close>.
\<close>

partial_function (option) code_while :: "pattern \<Rightarrow> jsstring \<Rightarrow> nat \<Rightarrow> issue list \<Rightarrow> issue list option" where
  "code_while p codeSnippet lastIndex acc =
     (case regex_exec (regex p) codeSnippet lastIndex of
        (None, _) \<Rightarrow> Some acc
      | (Some (index, m0), lastIndex') \<Rightarrow>
          code_while p codeSnippet lastIndex'
            (acc @ [code_issue p (findLineNumber codeSnippet index)]))"

partial_function (option) log_while :: "pattern \<Rightarrow> jsstring \<Rightarrow> nat \<Rightarrow> issue list \<Rightarrow> issue list option" where
  "log_while p terminalLogs lastIndex acc =
     (case regex_exec (regex p) terminalLogs lastIndex of
        (None, _) \<Rightarrow> Some acc
      | (Some (index, m0), lastIndex') \<Rightarrow>
          (let existingIssue = find (\<lambda>i. category i = pcategory p \<and> type i = ptype p) acc in
           log_while p terminalLogs lastIndex'
             (if existingIssue = None
              then acc @ [log_issue p m0 (findLineNumber terminalLogs index)]
              else acc)))"

declare code_while.simps [code]
declare log_while.simps [code]

text \<open>
  The outer \<open>for\<close> loops over the rule tables. Each rule gets a fresh regular expression
  object, whose \<open>lastIndex\<close> is 0.
\<close>

fun code_for :: "pattern list \<Rightarrow> jsstring \<Rightarrow> issue list \<Rightarrow> issue list option" where
  "code_for [] codeSnippet acc = Some acc"
| "code_for (p # ps) codeSnippet acc =
     (case code_while p codeSnippet 0 acc of
        None \<Rightarrow> None
      | Some acc' \<Rightarrow> code_for ps codeSnippet acc')"

fun log_for :: "pattern list \<Rightarrow> jsstring \<Rightarrow> issue list \<Rightarrow> issue list option" where
  "log_for [] terminalLogs acc = Some acc"
| "log_for (p # ps) terminalLogs acc =
     (case log_while p terminalLogs 0 acc of
        None \<Rightarrow> None
      | Some acc' \<Rightarrow> log_for ps terminalLogs acc')"

text \<open>The two guarded blocks of \<open>analyzeCode\<close>; an empty string is falsy.\<close>

definition scan_code :: "jsstring \<Rightarrow> issue list \<Rightarrow> issue list option" where
  "scan_code codeSnippet acc =
     (if trim codeSnippet \<noteq> [] then code_for CODE_PATTERNS codeSnippet acc else Some acc)"

definition scan_logs :: "jsstring \<Rightarrow> issue list \<Rightarrow> issue list option" where
  "scan_logs terminalLogs acc =
     (if trim terminalLogs \<noteq> [] then log_for TERMINAL_PATTERNS terminalLogs acc else Some acc)"

text \<open>
  The sort. \<open>Array.prototype.sort\<close> is stable, and the comparison function is the
  difference of the ranks, so the sort is the stable sort by rank.
\<close>

fun severityOrder :: "severity \<Rightarrow> nat" where
  "severityOrder Error = 0"
| "severityOrder Warning = 1"
| "severityOrder Info = 2"

definition count_type :: "severity \<Rightarrow> issue list \<Rightarrow> nat" where
  "count_type t xs = length (filter (\<lambda>i. type i = t) xs)"

definition make_summary :: "issue list \<Rightarrow> stats_t \<Rightarrow> jsstring" where
  "make_summary xs st =
     (if length xs = 0 then js ''No issues detected. Code looks clean!''
      else if errors st > 0 then
        js ''Found '' @ numToString (errors st) @ js '' error''
          @ (if errors st > 1 then js ''s'' else []) @ js '', ''
          @ numToString (warnings st) @ js '' warning''
          @ (if warnings st \<noteq> 1 then js ''s'' else []) @ js '', and ''
          @ numToString (info st) @ js '' info message''
          @ (if info st \<noteq> 1 then js ''s'' else []) @ js ''. Address errors first.''
      else if warnings st > 0 then
        js ''Found '' @ numToString (warnings st) @ js '' warning''
          @ (if warnings st > 1 then js ''s'' else []) @ js '' and ''
          @ numToString (info st) @ js '' info message''
          @ (if info st \<noteq> 1 then js ''s'' else [])
          @ js ''. Consider addressing warnings for better code quality.''
      else
        js ''Found '' @ numToString (info st) @ js '' info message''
          @ (if info st > 1 then js ''s'' else [])
          @ js ''. Minor improvements suggested.'')"

definition finish :: "issue list \<Rightarrow> TraditionalAnalysisResult" where
  "finish acc =
     (let sorted_issues = sort_key (\<lambda>i. severityOrder (type i)) acc;
          st = \<lparr>errors = count_type Error sorted_issues,
                warnings = count_type Warning sorted_issues,
                info = count_type Info sorted_issues\<rparr>
      in \<lparr>issues = sorted_issues, summary = make_summary sorted_issues st, stats = st\<rparr>)"

definition analyzeCode :: "jsstring \<Rightarrow> jsstring \<Rightarrow> TraditionalAnalysisResult option" where
  "analyzeCode codeSnippet terminalLogs =
     (case scan_code codeSnippet [] of
        None \<Rightarrow> None
      | Some acc1 \<Rightarrow>
          (case scan_logs terminalLogs acc1 of
             None \<Rightarrow> None
           | Some acc2 \<Rightarrow> Some (finish acc2)))"

section \<open>Every match of a rule consumes input\<close>

text \<open>
  \<open>min_len r\<close> is a lower bound, read off the expression, for the length of a match of
  \<open>r\<close>.
\<close>

fun min_len :: "rx \<Rightarrow> nat" where
  "min_len Eps = 0"
| "min_len (Chr c) = 1"
| "min_len (OneOf cs) = 1"
| "min_len (NoneOf cs) = 1"
| "min_len (Seq r1 r2) = min_len r1 + min_len r2"
| "min_len (Alt r1 r2) = min (min_len r1) (min_len r2)"
| "min_len (Star r) = 0"
| "min_len (Plus r) = min_len r"
| "min_len (Opt r) = 0"
| "min_len (NotAhead r) = 0"
| "min_len WordB = 0"
| "min_len Eol = 0"

text \<open>
  All matches of a regular expression in a string, in the order in which the repeated
  calls of \<open>exec\<close> find them, for a regular expression whose \<open>lastIndex\<close> moves forward
  at each match.
\<close>

function exec_all :: "regexp \<Rightarrow> jsstring \<Rightarrow> nat \<Rightarrow> (nat \<times> jsstring) list" where
  "exec_all re s lastIndex =
     (case regex_exec re s lastIndex of
        (None, _) \<Rightarrow> []
      | (Some (idx, m0), li) \<Rightarrow> (idx, m0) # (if lastIndex < li then exec_all re s li else []))"
  by pat_completeness auto
termination
proof (relation "measure (\<lambda>(re, s, i). Suc (length s) - i)", goal_cases)
  case 1
  show ?case by simp
next
  case (2 re s lastIndex x1 li x3 idx m0)
  then have ex: "regex_exec re s lastIndex = (Some (idx, m0), li)" and lt: "lastIndex < li"
    by simp_all
  have "global re"
  proof (rule ccontr)
    assume "\<not> global re"
    with ex have "li = lastIndex"
      by (auto simp: regex_exec_def Let_def split: option.splits if_splits)
    with lt show False by simp
  qed
  from regex_exec_bounds [OF ex this] lt show ?case by auto
qed

declare exec_all.simps [simp del]

lemma step_if_length:
  "st' \<in> set (step_if ok st) \<Longrightarrow> Suc (length (snd st')) = length (snd st)"
  by (cases "snd st") (auto simp: step_if_def split: if_splits)

lemma star_length:
  assumes "\<And>a b. b \<in> set (f a) \<Longrightarrow> length (snd b) \<le> length (snd a)"
  shows "st' \<in> set (star f st) \<Longrightarrow> length (snd st') \<le> length (snd st)"
proof (induction f st arbitrary: st' rule: star.induct)
  case (1 f st)
  from "1.prems" consider "st' = st"
    | x where "x \<in> set (f st)" "length (snd x) < length (snd st)" "st' \<in> set (star f x)"
    by (subst (asm) star.simps) (auto split: if_splits)
  then show ?case
  proof cases
    case 1
    then show ?thesis by simp
  next
    case 2
    from "1.IH" [OF 2(1) 2(2) 2(3)] 2(2) show ?thesis by simp
  qed
qed

lemma matcher_min_len:
  "st' \<in> set (matcher ic ml r st) \<Longrightarrow> length (snd st') + min_len r \<le> length (snd st)"
proof (induction r arbitrary: st st')
  case (Seq r1 r2)
  from Seq.prems obtain x where "x \<in> set (matcher ic ml r1 st)" "st' \<in> set (matcher ic ml r2 x)"
    by auto
  with Seq.IH(1) [of x st] Seq.IH(2) [of st' x] show ?case by simp
next
  case (Alt r1 r2)
  then show ?case by fastforce
next
  case (Star r)
  have "length (snd st') \<le> length (snd st)"
  proof (rule star_length [of "matcher ic ml r"])
    show "\<And>a b. b \<in> set (matcher ic ml r a) \<Longrightarrow> length (snd b) \<le> length (snd a)"
      using Star.IH by fastforce
    show "st' \<in> set (star (matcher ic ml r) st)"
      using Star.prems by simp
  qed
  then show ?case by simp
next
  case (Plus r)
  from Plus.prems obtain x where x: "x \<in> set (matcher ic ml r st)"
    and s: "st' \<in> set (star (matcher ic ml r) x)"
    by auto
  have "length (snd st') \<le> length (snd x)"
  proof (rule star_length [of "matcher ic ml r"])
    show "\<And>a b. b \<in> set (matcher ic ml r a) \<Longrightarrow> length (snd b) \<le> length (snd a)"
      using Plus.IH by fastforce
    show "st' \<in> set (star (matcher ic ml r) x)" by (rule s)
  qed
  with Plus.IH [OF x] show ?case by simp
next
  case (Opt r)
  then show ?case by fastforce
qed (auto dest: step_if_length split: if_splits list.splits)

lemma search_min_len:
  "search re i prev xs = Some (idx, m0) \<Longrightarrow> min_len (source re) \<le> length m0"
proof (induction xs arbitrary: i prev)
  case Nil
  then obtain e where "e \<in> set (matcher (ignoreCase re) (multiline re) (source re) (prev, []))"
    and "m0 = []"
    by (auto split: list.splits)
  with matcher_min_len [of e _ _ _ "(prev, [])"] show ?case by simp
next
  case (Cons x xs)
  show ?case
  proof (cases "matcher (ignoreCase re) (multiline re) (source re) (prev, x # xs)")
    case Nil
    with Cons show ?thesis by simp
  next
    case (Cons e es)
    then have "e \<in> set (matcher (ignoreCase re) (multiline re) (source re) (prev, x # xs))"
      by simp
    from matcher_min_len [OF this] Cons Cons.prems show ?thesis by auto
  qed
qed

lemma regex_exec_min_len:
  "regex_exec re s i = (Some (idx, m0), li) \<Longrightarrow> min_len (source re) \<le> length m0"
  by (auto simp: regex_exec_def Let_def split: if_splits option.splits dest: search_min_len)

lemma regex_exec_progress:
  assumes "regex_exec re s i = (Some (idx, m0), li)" and "global re" and "0 < min_len (source re)"
  shows "i < li"
  using regex_exec_bounds [OF assms(1,2)] regex_exec_min_len [OF assms(1)] assms(3) by simp

text \<open>The matches are found from left to right.\<close>

lemma exec_all_lower:
  "global re \<Longrightarrow> (idx, m0) \<in> set (exec_all re s i) \<Longrightarrow> i \<le> idx"
proof (induction re s i rule: exec_all.induct)
  case (1 re s i)
  show ?case
  proof (cases "regex_exec re s i")
    case (Pair r li)
    show ?thesis
    proof (cases r)
      case None
      with Pair "1.prems" show ?thesis
        by (subst (asm) exec_all.simps) simp
    next
      case (Some m)
      obtain idx' m0' where "m = (idx', m0')" by (cases m)
      with Pair Some have ex: "regex_exec re s i = (Some (idx', m0'), li)" by simp
      from "1.prems" ex consider "(idx, m0) = (idx', m0')"
        | "i < li" "(idx, m0) \<in> set (exec_all re s li)"
        by (subst (asm) (2) exec_all.simps) (auto split: if_splits)
      then show ?thesis
      proof cases
        case 1
        with regex_exec_bounds [OF ex "1.prems"(1)] show ?thesis by simp
      next
        case 2
        from "1.IH" [OF ex [symmetric] refl refl 2(1) "1.prems"(1) 2(2)] 2(1)
        show ?thesis by simp
      qed
    qed
  qed
qed

lemma exec_all_increasing:
  "global re \<Longrightarrow> 0 < min_len (source re) \<Longrightarrow> sorted_wrt (<) (map fst (exec_all re s i))"
proof (induction re s i rule: exec_all.induct)
  case (1 re s i)
  show ?case
  proof (cases "regex_exec re s i")
    case (Pair r li)
    show ?thesis
    proof (cases r)
      case None
      with Pair show ?thesis by (subst exec_all.simps) simp
    next
      case (Some m)
      obtain idx m0 where "m = (idx, m0)" by (cases m)
      with Pair Some have ex: "regex_exec re s i = (Some (idx, m0), li)" by simp
      from regex_exec_progress [OF ex "1.prems"] have lt: "i < li" .
      from regex_exec_bounds [OF ex "1.prems"(1)] regex_exec_min_len [OF ex] "1.prems"(2)
      have "idx < li" by auto
      with exec_all_lower [OF "1.prems"(1), of _ _ s li]
      have "\<forall>x \<in> set (exec_all re s li). idx < fst x"
        by fastforce
      with "1.IH" [OF ex [symmetric] refl refl lt "1.prems"] lt show ?thesis
        by (subst exec_all.simps) (simp add: ex)
    qed
  qed
qed

text \<open>The \<open>while\<close> loops end on such a rule, and push one issue for each match.\<close>

definition log_step :: "pattern \<Rightarrow> jsstring \<Rightarrow> issue list \<Rightarrow> nat \<times> jsstring \<Rightarrow> issue list" where
  "log_step p s acc m =
     (if find (\<lambda>i. category i = pcategory p \<and> type i = ptype p) acc = None
      then acc @ [log_issue p (snd m) (findLineNumber s (fst m))]
      else acc)"

lemma code_while_total:
  assumes "global (regex p)" and "0 < min_len (source (regex p))"
  shows "code_while p s i acc =
           Some (acc @ map (\<lambda>m. code_issue p (findLineNumber s (fst m))) (exec_all (regex p) s i))"
proof (induction "regex p" s i arbitrary: acc rule: exec_all.induct)
  case (1 s i)
  show ?case
  proof (cases "regex_exec (regex p) s i")
    case (Pair r li)
    show ?thesis
    proof (cases r)
      case None
      with Pair show ?thesis
        by (subst code_while.simps, subst exec_all.simps) simp
    next
      case (Some m)
      obtain idx m0 where m: "m = (idx, m0)" by (cases m)
      from Pair Some m have ex: "regex_exec (regex p) s i = (Some (idx, m0), li)" by simp
      from regex_exec_progress [OF ex assms] have lt: "i < li" .
      from "1.hyps" [OF ex [symmetric] refl refl lt]
      have IH: "\<And>acc. code_while p s li acc =
                  Some (acc @ map (\<lambda>m. code_issue p (findLineNumber s (fst m)))
                                (exec_all (regex p) s li))" .
      show ?thesis
        by (subst code_while.simps, subst exec_all.simps) (simp add: ex lt IH)
    qed
  qed
qed

lemma log_while_total:
  assumes "global (regex p)" and "0 < min_len (source (regex p))"
  shows "log_while p s i acc = Some (foldl (log_step p s) acc (exec_all (regex p) s i))"
proof (induction "regex p" s i arbitrary: acc rule: exec_all.induct)
  case (1 s i)
  show ?case
  proof (cases "regex_exec (regex p) s i")
    case (Pair r li)
    show ?thesis
    proof (cases r)
      case None
      with Pair show ?thesis
        by (subst log_while.simps, subst exec_all.simps) simp
    next
      case (Some m)
      obtain idx m0 where m: "m = (idx, m0)" by (cases m)
      from Pair Some m have ex: "regex_exec (regex p) s i = (Some (idx, m0), li)" by simp
      from regex_exec_progress [OF ex assms] have lt: "i < li" .
      from "1.hyps" [OF ex [symmetric] refl refl lt]
      have IH: "\<And>acc. log_while p s li acc =
                  Some (foldl (log_step p s) acc (exec_all (regex p) s li))" .
      show ?thesis
        by (subst log_while.simps, subst exec_all.simps) (simp add: ex lt IH log_step_def Let_def)
    qed
  qed
qed

section \<open>The findings in detection order\<close>

text \<open>
  The matches of a rule table in a text, in detection order: rule by rule in the order of
  the table, and for each rule match by match. A blank text has none.
\<close>

type_synonym rule_match = "pattern \<times> nat \<times> jsstring"

definition matches_of :: "pattern list \<Rightarrow> jsstring \<Rightarrow> rule_match list" where
  "matches_of ps s =
     (if trim s = [] then []
      else concat (map (\<lambda>p. map (Pair p) (exec_all (regex p) s 0)) ps))"

definition code_matches :: "jsstring \<Rightarrow> rule_match list" where
  "code_matches codeSnippet = matches_of CODE_PATTERNS codeSnippet"

definition log_matches :: "jsstring \<Rightarrow> rule_match list" where
  "log_matches terminalLogs = matches_of TERMINAL_PATTERNS terminalLogs"

fun code_finding :: "jsstring \<Rightarrow> rule_match \<Rightarrow> issue" where
  "code_finding s (p, idx, m0) = code_issue p (findLineNumber s idx)"

fun log_finding :: "jsstring \<Rightarrow> rule_match \<Rightarrow> issue" where
  "log_finding s (p, idx, m0) = log_issue p m0 (findLineNumber s idx)"

fun match_key :: "rule_match \<Rightarrow> jsstring \<times> severity" where
  "match_key (p, idx, m0) = (pcategory p, ptype p)"

definition issue_key :: "issue \<Rightarrow> jsstring \<times> severity" where
  "issue_key i = (category i, type i)"

text \<open>Keep the first element of each key, skipping the keys already seen.\<close>

fun dedup_first :: "('a \<Rightarrow> 'k) \<Rightarrow> 'k set \<Rightarrow> 'a list \<Rightarrow> 'a list" where
  "dedup_first key seen [] = []"
| "dedup_first key seen (x # xs) =
     (if key x \<in> seen then dedup_first key seen xs
      else x # dedup_first key (insert (key x) seen) xs)"

definition good_rule :: "pattern \<Rightarrow> bool" where
  "good_rule p = (global (regex p) \<and> 0 < min_len (source (regex p)))"

lemma code_patterns_good: "list_all good_rule CODE_PATTERNS"
  by code_simp

lemma terminal_patterns_good: "list_all good_rule TERMINAL_PATTERNS"
  by code_simp

lemma categories_disjoint:
  "list_all (\<lambda>p. list_all (\<lambda>q. pcategory p \<noteq> pcategory q) TERMINAL_PATTERNS) CODE_PATTERNS"
  by code_simp

lemma terminal_patterns_plain:
  "list_all (\<lambda>p. psuggestion p = None \<and> fixCode p = None) TERMINAL_PATTERNS"
  by code_simp

lemma good_rule_catalog:
  "p \<in> set CODE_PATTERNS \<union> set TERMINAL_PATTERNS \<Longrightarrow> good_rule p"
  using code_patterns_good terminal_patterns_good by (auto simp: list_all_iff)

lemma code_finding_pair: "code_finding s (p, m) = code_issue p (findLineNumber s (fst m))"
  by (cases m) simp

lemma code_for_total:
  "list_all good_rule ps \<Longrightarrow>
   code_for ps s acc =
     Some (acc @ map (code_finding s) (concat (map (\<lambda>p. map (Pair p) (exec_all (regex p) s 0)) ps)))"
proof (induction ps arbitrary: acc)
  case Nil
  then show ?case by simp
next
  case (Cons p ps)
  from Cons.prems have "good_rule p" and "list_all good_rule ps"
    by simp_all
  then have "global (regex p)" "0 < min_len (source (regex p))" "list_all good_rule ps"
    by (simp_all add: good_rule_def)
  from code_while_total [OF this(1,2)] Cons.IH [OF this(3)] show ?case
    by (simp add: comp_def code_finding_pair)
qed

lemma find_key_None:
  "(find (\<lambda>i. category i = c \<and> type i = t) acc = None) = ((c, t) \<notin> issue_key ` set acc)"
  by (auto simp: find_None_iff issue_key_def image_iff)

lemma issue_key_log_finding: "issue_key (log_finding s m) = match_key m"
  by (cases m) (simp add: issue_key_def log_issue_def)

lemma issue_key_code_finding: "issue_key (code_finding s m) = match_key m"
  by (cases m) (simp add: issue_key_def code_issue_def)

lemma log_step_foldl:
  "foldl (\<lambda>a m. log_step (fst m) s a (snd m)) acc ms =
     acc @ map (log_finding s) (dedup_first match_key (issue_key ` set acc) ms)"
proof (induction ms arbitrary: acc)
  case Nil
  then show ?case by simp
next
  case (Cons m ms)
  obtain p idx m0 where m: "m = (p, idx, m0)" by (cases m)
  have k: "issue_key (log_issue p m0 (findLineNumber s idx)) = (pcategory p, ptype p)"
    by (simp add: issue_key_def log_issue_def)
  have step: "log_step p s acc (idx, m0) =
                (if (pcategory p, ptype p) \<in> issue_key ` set acc then acc
                 else acc @ [log_issue p m0 (findLineNumber s idx)])"
    by (simp add: log_step_def find_key_None)
  show ?case
    by (simp add: m step Cons.IH k)
qed

lemma log_for_foldl:
  "list_all good_rule ps \<Longrightarrow>
   log_for ps s acc =
     Some (foldl (\<lambda>a m. log_step (fst m) s a (snd m)) acc
             (concat (map (\<lambda>p. map (Pair p) (exec_all (regex p) s 0)) ps)))"
proof (induction ps arbitrary: acc)
  case Nil
  then show ?case by simp
next
  case (Cons p ps)
  from Cons.prems have "good_rule p" and "list_all good_rule ps"
    by simp_all
  then have "global (regex p)" "0 < min_len (source (regex p))" "list_all good_rule ps"
    by (simp_all add: good_rule_def)
  from log_while_total [OF this(1,2)] Cons.IH [OF this(3)] show ?case
    by (simp add: foldl_map)
qed

lemma dedup_first_unseen:
  "\<forall>x \<in> set xs. key x \<notin> S \<Longrightarrow> dedup_first key (S \<union> T) xs = dedup_first key T xs"
proof (induction xs arbitrary: T)
  case Nil
  then show ?case by simp
next
  case (Cons x xs)
  from Cons.prems have "\<forall>x \<in> set xs. key x \<notin> S" and "key x \<notin> S" by simp_all
  from Cons.IH [OF this(1)] this(2) show ?case
    by (simp add: Un_insert_right [symmetric] del: Un_insert_right)
qed

lemma filter_dedup_first:
  "filter (\<lambda>x. key x = k) (dedup_first key S xs) =
     (if k \<in> S then [] else case find (\<lambda>x. key x = k) xs of None \<Rightarrow> [] | Some x \<Rightarrow> [x])"
  by (induction xs arbitrary: S) auto

lemma set_dedup_first: "set (dedup_first key S xs) \<subseteq> set xs"
  by (induction xs arbitrary: S) auto

lemma scan_code_eq: "scan_code s acc = Some (acc @ map (code_finding s) (code_matches s))"
  by (simp add: scan_code_def code_matches_def matches_of_def code_for_total [OF code_patterns_good])

lemma matches_of_pattern: "(p, m) \<in> set (matches_of ps s) \<Longrightarrow> p \<in> set ps"
  by (auto simp: matches_of_def split: if_splits)

lemma code_log_keys_disjoint:
  assumes "a \<in> set (code_matches src)" and "b \<in> set (log_matches logs)"
  shows "match_key b \<noteq> match_key a"
proof -
  obtain p m q n where a: "a = (p, m)" and b: "b = (q, n)" by (cases a, cases b)
  with assms have "p \<in> set CODE_PATTERNS" "q \<in> set TERMINAL_PATTERNS"
    by (auto simp: code_matches_def log_matches_def dest: matches_of_pattern)
  with categories_disjoint have "pcategory p \<noteq> pcategory q"
    by (auto simp: list_all_iff)
  with a b show ?thesis by (cases m, cases n) auto
qed

lemma scan_logs_eq:
  "scan_logs s acc =
     Some (acc @ map (log_finding s) (dedup_first match_key (issue_key ` set acc) (log_matches s)))"
  by (simp add: scan_logs_def log_matches_def matches_of_def
      log_for_foldl [OF terminal_patterns_good] log_step_foldl)

text \<open>
  The findings of a call before the sort: those of the code, then those of the terminal
  output, where only the first match of each pair of category and severity has one.
\<close>

definition code_findings :: "jsstring \<Rightarrow> issue list" where
  "code_findings codeSnippet = map (code_finding codeSnippet) (code_matches codeSnippet)"

definition log_findings :: "jsstring \<Rightarrow> issue list" where
  "log_findings terminalLogs =
     map (log_finding terminalLogs) (dedup_first match_key {} (log_matches terminalLogs))"

lemma scan_logs_after_code:
  "scan_logs logs (code_findings src) = Some (code_findings src @ log_findings logs)"
proof -
  have "\<forall>x \<in> set (log_matches logs). match_key x \<notin> issue_key ` set (code_findings src)"
  proof (intro ballI notI)
    fix x
    assume x: "x \<in> set (log_matches logs)"
      and "match_key x \<in> issue_key ` set (code_findings src)"
    then obtain a where a: "a \<in> set (code_matches src)"
      and "match_key x = issue_key (code_finding src a)"
      unfolding code_findings_def by auto
    then have "match_key x = match_key a"
      by (simp only: issue_key_code_finding)
    with code_log_keys_disjoint [OF a x] show False by simp
  qed
  from dedup_first_unseen [OF this, of "{}"] show ?thesis
    by (simp add: scan_logs_eq log_findings_def)
qed

lemma analyzeCode_eq:
  "analyzeCode src logs = Some (finish (code_findings src @ log_findings logs))"
  using scan_code_eq [of src "[]"] scan_logs_after_code [of logs src]
  by (simp add: analyzeCode_def code_findings_def)

section \<open>Line numbers\<close>

definition newlines :: "jsstring \<Rightarrow> nat" where
  "newlines s = length (filter (\<lambda>c. c = 10) s)"

lemma search_newline_Nil: "search (re_g (Chr 10)) i prev [] = None"
  by (simp add: re_g_def step_if_def)

lemma search_newline_Cons:
  "search (re_g (Chr 10)) i prev (x # xs) =
     (if x = 10 then Some (i, [10]) else search (re_g (Chr 10)) (Suc i) (Some x) xs)"
  by (simp add: re_g_def step_if_def canonicalize_def)

lemma search_newline_None:
  "search (re_g (Chr 10)) i prev xs = None \<Longrightarrow> newlines xs = 0"
  by (induction xs arbitrary: i prev)
     (auto simp: search_newline_Cons newlines_def simp del: search.simps split: if_splits)

lemma search_newline_Some:
  "search (re_g (Chr 10)) i prev xs = Some (idx, m0) \<Longrightarrow>
     m0 = [10] \<and> i \<le> idx \<and> newlines xs = Suc (newlines (drop (Suc idx - i) xs))"
proof (induction xs arbitrary: i prev)
  case Nil
  then show ?case by (simp add: search_newline_Nil del: search.simps)
next
  case (Cons x xs)
  show ?case
  proof (cases "x = 10")
    case True
    with Cons.prems show ?thesis
      by (simp add: search_newline_Cons newlines_def del: search.simps)
  next
    case False
    with Cons.prems have "search (re_g (Chr 10)) (Suc i) (Some x) xs = Some (idx, m0)"
      by (simp add: search_newline_Cons del: search.simps)
    from Cons.IH [OF this] False show ?thesis
      by (simp add: newlines_def Suc_diff_le)
  qed
qed

lemma match_all_newlines:
  "length (match_all (re_g (Chr 10)) s i) = newlines (drop i s)"
proof (induction "re_g (Chr 10)" s i rule: match_all.induct)
  case (1 s i)
  have g: "global (re_g (Chr 10))" by (simp add: re_g_def)
  show ?case
  proof (cases "length s < i")
    case True
    then show ?thesis
      by (subst match_all.simps) (simp add: regex_exec_def g newlines_def)
  next
    case le: False
    show ?thesis
    proof (cases "search (re_g (Chr 10)) i (char_before s i) (drop i s)")
      case None
      with le search_newline_None [OF None] show ?thesis
        by (subst match_all.simps) (simp add: regex_exec_def g)
    next
      case (Some m)
      obtain idx m0 where m: "m = (idx, m0)" by (cases m)
      from search_newline_Some [OF Some [unfolded m]]
      have m0: "m0 = [10]" and i: "i \<le> idx"
        and n: "newlines (drop i s) = Suc (newlines (drop (Suc idx - i) (drop i s)))"
        by simp_all
      from le Some m m0 g
      have ex: "regex_exec (re_g (Chr 10)) s i = (Some (idx, m0), Suc idx)"
        by (simp add: regex_exec_def)
      from "1.hyps" [OF _ ex [symmetric] refl refl] g m0
      have IH: "length (match_all (re_g (Chr 10)) s (Suc idx)) = newlines (drop (Suc idx) s)"
        by simp
      from i have "Suc idx - i + i = Suc idx" by simp
      with n have "newlines (drop i s) = Suc (newlines (drop (Suc idx) s))"
        by simp
      with IH show ?thesis
        by (subst match_all.simps) (simp add: ex g m0)
    qed
  qed
qed

lemma findLineNumber_newlines:
  "findLineNumber content matchIndex = newlines (take matchIndex content) + 1"
proof -
  have "length (case string_match s (re_g (Chr 10)) of None \<Rightarrow> [] | Some ms \<Rightarrow> ms)
          = length (match_all (re_g (Chr 10)) s 0)" for s
    by (simp add: string_match_def split: list.splits)
  then show ?thesis
    by (simp add: findLineNumber_def match_all_newlines)
qed

section \<open>The report\<close>

lemma issues_finish: "issues (finish acc) = sort_key (\<lambda>i. severityOrder (type i)) acc"
  by (simp add: finish_def Let_def)

lemma stats_finish:
  "stats (finish acc) =
     \<lparr>errors = count_type Error (issues (finish acc)),
      warnings = count_type Warning (issues (finish acc)),
      info = count_type Info (issues (finish acc))\<rparr>"
  by (simp add: finish_def Let_def)

lemma summary_finish:
  "summary (finish acc) = make_summary (issues (finish acc)) (stats (finish acc))"
  by (simp add: finish_def Let_def)

lemma count_type_sum:
  "count_type Error xs + count_type Warning xs + count_type Info xs = length xs"
proof (induction xs)
  case Nil
  then show ?case by (simp add: count_type_def)
next
  case (Cons x xs)
  then show ?case by (cases "type x") (simp_all add: count_type_def)
qed

lemma severityOrder_inj: "(severityOrder a = severityOrder b) = (a = b)"
  by (cases a; cases b) simp_all

lemma filter_type_sort:
  "filter (\<lambda>i. type i = t) (sort_key (\<lambda>i. severityOrder (type i)) xs) =
     filter (\<lambda>i. type i = t) xs"
  using sort_key_stable [of "\<lambda>i. severityOrder (type i)" "severityOrder t" xs]
  by (simp add: severityOrder_inj)

text \<open>The sentence of the specification's table, with its rule for the plural.\<close>

definition plural :: "nat \<Rightarrow> jsstring" where
  "plural n = (if n \<noteq> 1 then js ''s'' else [])"

definition spec_summary :: "nat \<Rightarrow> stats_t \<Rightarrow> jsstring option" where
  "spec_summary n st =
     (if n = 0 then Some (js ''No issues detected. Code looks clean!'')
      else if errors st > 0 then
        Some (js ''Found '' @ numToString (errors st) @ js '' error'' @ plural (errors st)
              @ js '', '' @ numToString (warnings st) @ js '' warning'' @ plural (warnings st)
              @ js '', and '' @ numToString (info st) @ js '' info message'' @ plural (info st)
              @ js ''. Address errors first.'')
      else if errors st = 0 \<and> warnings st > 0 then
        Some (js ''Found '' @ numToString (warnings st) @ js '' warning'' @ plural (warnings st)
              @ js '' and '' @ numToString (info st) @ js '' info message'' @ plural (info st)
              @ js ''. Consider addressing warnings for better code quality.'')
      else if errors st = 0 \<and> warnings st = 0 \<and> info st > 0 then
        Some (js ''Found '' @ numToString (info st) @ js '' info message'' @ plural (info st)
              @ js ''. Minor improvements suggested.'')
      else None)"

lemma make_summary_spec:
  assumes "errors st + warnings st + info st = length xs"
  shows "spec_summary (length xs) st = Some (make_summary xs st)"
proof -
  consider "length xs = 0" | "0 < length xs" "0 < errors st"
    | "0 < length xs" "errors st = 0" "0 < warnings st"
    | "0 < length xs" "errors st = 0" "warnings st = 0" "0 < info st"
    using assms by linarith
  then show ?thesis
  proof cases
    case 1
    then show ?thesis by (simp add: spec_summary_def make_summary_def)
  next
    case 2
    then have "(1 < errors st) = (errors st \<noteq> 1)" by auto
    with 2 show ?thesis by (simp add: spec_summary_def make_summary_def plural_def)
  next
    case 3
    then have "(1 < warnings st) = (warnings st \<noteq> 1)" by auto
    with 3 show ?thesis by (simp add: spec_summary_def make_summary_def plural_def)
  next
    case 4
    then have "(1 < info st) = (info st \<noteq> 1)" by auto
    with 4 show ?thesis by (simp add: spec_summary_def make_summary_def plural_def)
  qed
qed

section \<open>A worked example\<close>

text \<open>
  Three lines of code with a \<open>var\<close> declaration on the third, and two lines of terminal
  output, each with a runtime error.
\<close>

definition ex_code :: jsstring where
  "ex_code = js ''a'' @ [10] @ js ''b'' @ [10] @ js ''var x = 1;''"

definition ex_logs :: jsstring where
  "ex_logs = js ''Error: foo'' @ [10] @ js ''Error: bar''"

definition ex_var_issue :: issue where
  "ex_var_issue =
     \<lparr>type = Warning, category = js ''Code Quality'',
      message = js ''Using 'var' instead of 'let' or 'const'' @ [39],
      line = Some 3,
      suggestion = Some (js ''Use 'const' for constants, 'let' for variables that change''),
      code = None\<rparr>"

definition ex_error_issue :: issue where
  "ex_error_issue =
     \<lparr>type = Error, category = js ''Runtime Error'',
      message = js ''Error detected in terminal output: \"Error: foo\"'',
      line = Some 1, suggestion = None, code = None\<rparr>"

lemma ex_code_findings: "code_findings ex_code = [ex_var_issue]"
  by code_simp

lemma ex_log_findings: "log_findings ex_logs = [ex_error_issue]"
  by code_simp

lemma ex_log_matches:
  "map (\<lambda>m. (match_key m, snd m)) (log_matches ex_logs) =
     [((js ''Runtime Error'', Error), 0, js ''Error: foo''),
      ((js ''Runtime Error'', Error), 11, js ''Error: bar'')]"
  by code_simp

lemma ex_finish:
  "finish [ex_var_issue, ex_error_issue] =
     \<lparr>issues = [ex_error_issue, ex_var_issue],
      summary = js ''Found 1 error, 1 warning, and 0 info messages. Address errors first.'',
      stats = \<lparr>errors = 1, warnings = 1, info = 0\<rparr>\<rparr>"
  by code_simp

lemma ex_report:
  "analyzeCode ex_code ex_logs =
     Some \<lparr>issues = [ex_error_issue, ex_var_issue],
           summary = js ''Found 1 error, 1 warning, and 0 info messages. Address errors first.'',
           stats = \<lparr>errors = 1, warnings = 1, info = 0\<rparr>\<rparr>"
  by (simp add: analyzeCode_eq ex_code_findings ex_log_findings ex_finish)

text \<open>A line of terminal output whose match has 67 characters.\<close>

definition ex_long_logs :: jsstring where
  "ex_long_logs = js ''Error: '' @ replicate 60 120"

lemma ex_long_log_messages:
  "map message (log_findings ex_long_logs) =
     [js ''Error detected in terminal output: \"Error: '' @ replicate 43 120 @ js ''...\"'']"
  by code_simp

section \<open>Claims about the report\<close>

lemma stats_finish_sum:
  "errors (stats (finish acc)) + warnings (stats (finish acc)) + info (stats (finish acc))
     = length (issues (finish acc))"
  by (simp add: finish_def Let_def count_type_sum)

lemma stats_finish_fields:
  "errors (stats (finish acc)) = length (filter (\<lambda>i. type i = Error) (issues (finish acc)))"
  "warnings (stats (finish acc)) = length (filter (\<lambda>i. type i = Warning) (issues (finish acc)))"
  "info (stats (finish acc)) = length (filter (\<lambda>i. type i = Info) (issues (finish acc)))"
  by (simp_all add: finish_def Let_def count_type_def)

text \<open>The sort by the ranks puts the errors first, then the warnings, then the infos.\<close>

lemma sorted_split:
  fixes f :: "'a \<Rightarrow> nat"
  shows "sorted (map f xs) \<Longrightarrow>
         xs = filter (\<lambda>x. f x < k) xs @ filter (\<lambda>x. \<not> f x < k) xs"
proof (induction xs)
  case Nil
  then show ?case by simp
next
  case (Cons x xs)
  from Cons.prems have le: "\<forall>y \<in> set xs. f x \<le> f y" and s: "sorted (map f xs)"
    by simp_all
  show ?case
  proof (cases "f x < k")
    case True
    with Cons.IH [OF s] show ?thesis by simp
  next
    case False
    with le have "\<forall>y \<in> set xs. \<not> f y < k" by auto
    then have "filter (\<lambda>x. f x < k) xs = []" and "filter (\<lambda>x. \<not> f x < k) xs = xs"
      by (simp_all add: filter_empty_conv filter_id_conv)
    with False show ?thesis by simp
  qed
qed

lemma rank_Error: "(severityOrder t < 1) = (t = Error)"
  by (cases t) simp_all

lemma rank_Warning: "(\<not> severityOrder t < 1 \<and> severityOrder t < 2) = (t = Warning)"
  by (cases t) simp_all

lemma rank_Info: "(\<not> severityOrder t < 1 \<and> \<not> severityOrder t < 2) = (t = Info)"
  by (cases t) simp_all

lemma sorted_by_severity:
  assumes "sorted (map (\<lambda>i. severityOrder (type i)) xs)"
  shows "xs = filter (\<lambda>i. type i = Error) xs @ filter (\<lambda>i. type i = Warning) xs
              @ filter (\<lambda>i. type i = Info) xs"
proof -
  let ?f = "\<lambda>i. severityOrder (type i)"
  let ?ys = "filter (\<lambda>i. \<not> ?f i < 1) xs"
  from sorted_split [OF assms, of 1]
  have a: "xs = filter (\<lambda>i. ?f i < 1) xs @ ?ys" .
  from assms have "sorted (map ?f ?ys)"
    by (rule sorted_filter)
  from sorted_split [OF this, of 2]
  have b: "?ys = filter (\<lambda>i. ?f i < 2) ?ys @ filter (\<lambda>i. \<not> ?f i < 2) ?ys" .
  have c: "filter (\<lambda>i. ?f i < 1) xs = filter (\<lambda>i. type i = Error) xs"
    by (simp only: rank_Error)
  have d: "filter (\<lambda>i. ?f i < 2) ?ys = filter (\<lambda>i. type i = Warning) xs"
    by (simp only: filter_filter rank_Warning)
  have e: "filter (\<lambda>i. \<not> ?f i < 2) ?ys = filter (\<lambda>i. type i = Info) xs"
    by (simp only: filter_filter rank_Info)
  from a b c d e show ?thesis by metis
qed

lemma issues_finish_by_severity:
  "issues (finish acc) = filter (\<lambda>i. type i = Error) acc @ filter (\<lambda>i. type i = Warning) acc
                           @ filter (\<lambda>i. type i = Info) acc"
proof -
  let ?xs = "sort_key (\<lambda>i. severityOrder (type i)) acc"
  have "sorted (map (\<lambda>i. severityOrder (type i)) ?xs)"
    by simp
  from sorted_by_severity [OF this]
  have "?xs = filter (\<lambda>i. type i = Error) ?xs @ filter (\<lambda>i. type i = Warning) ?xs
              @ filter (\<lambda>i. type i = Info) ?xs" .
  then have "?xs = filter (\<lambda>i. type i = Error) acc @ filter (\<lambda>i. type i = Warning) acc
              @ filter (\<lambda>i. type i = Info) acc"
    by (simp only: filter_type_sort)
  then show ?thesis
    by (simp only: issues_finish)
qed

definition ex_order_code :: jsstring where
  "ex_order_code = js ''// FIXME'' @ [10] @ js ''// TODO''"

definition ex_todo_issue :: issue where
  "ex_todo_issue =
     \<lparr>type = Info, category = js ''Code Quality'',
      message = js ''TODO comment found - incomplete implementation'',
      line = Some 2,
      suggestion = Some (js ''Complete the TODO or create a tracked issue''),
      code = None\<rparr>"

definition ex_fixme_issue :: issue where
  "ex_fixme_issue =
     \<lparr>type = Warning, category = js ''Code Quality'',
      message = js ''FIXME comment found - known issue needs attention'',
      line = Some 1,
      suggestion = Some (js ''Fix the issue or create a tracked bug report''),
      code = None\<rparr>"

lemma ex_order_code_findings: "code_findings ex_order_code = [ex_todo_issue, ex_fixme_issue]"
  by code_simp

lemma log_findings_Nil: "log_findings [] = []"
  by (simp add: log_findings_def log_matches_def matches_of_def trim_def)

text \<open>
  C2. For every pair of inputs the call returns a report whose findings are: first the
  findings of severity error, then those of severity warning, then those of severity
  info, each group in detection order (so no warning or info finding comes before an
  error finding, and no info finding before a warning finding, and the sort is stable).
  The detection order is: all the findings of the code, then all the findings of the
  terminal output; within each, rule by rule in the order of the table, and for each rule
  match by match from left to right.
\<close>

theorem C2_sorted_stable:
  "(\<exists>r. analyzeCode src logs = Some r
      \<and> issues r = filter (\<lambda>i. type i = Error) (code_findings src @ log_findings logs)
                   @ filter (\<lambda>i. type i = Warning) (code_findings src @ log_findings logs)
                   @ filter (\<lambda>i. type i = Info) (code_findings src @ log_findings logs)
      \<and> sorted (map (\<lambda>i. severityOrder (type i)) (issues r))
      \<and> (\<forall>t. filter (\<lambda>i. type i = t) (issues r)
               = filter (\<lambda>i. type i = t) (code_findings src @ log_findings logs)))
   \<and> scan_code src [] = Some (code_findings src)
   \<and> scan_logs logs (code_findings src) = Some (code_findings src @ log_findings logs)
   \<and> code_findings src = map (code_finding src) (matches_of CODE_PATTERNS src)
   \<and> log_findings logs
       = map (log_finding logs) (dedup_first match_key {} (matches_of TERMINAL_PATTERNS logs))
   \<and> (\<forall>p \<in> set CODE_PATTERNS \<union> set TERMINAL_PATTERNS.
         \<forall>s. sorted_wrt (<) (map fst (exec_all (regex p) s 0)))"
proof -
  let ?r = "finish (code_findings src @ log_findings logs)"
  have a: "\<exists>r. analyzeCode src logs = Some r
      \<and> issues r = filter (\<lambda>i. type i = Error) (code_findings src @ log_findings logs)
                   @ filter (\<lambda>i. type i = Warning) (code_findings src @ log_findings logs)
                   @ filter (\<lambda>i. type i = Info) (code_findings src @ log_findings logs)
      \<and> sorted (map (\<lambda>i. severityOrder (type i)) (issues r))
      \<and> (\<forall>t. filter (\<lambda>i. type i = t) (issues r)
               = filter (\<lambda>i. type i = t) (code_findings src @ log_findings logs))"
  proof (intro exI conjI)
    show "analyzeCode src logs = Some ?r"
      by (rule analyzeCode_eq)
    show "issues ?r
      = filter (\<lambda>i. type i = Error) (code_findings src @ log_findings logs)
        @ filter (\<lambda>i. type i = Warning) (code_findings src @ log_findings logs)
        @ filter (\<lambda>i. type i = Info) (code_findings src @ log_findings logs)"
      by (rule issues_finish_by_severity)
    show "sorted (map (\<lambda>i. severityOrder (type i)) (issues ?r))"
      by (simp add: issues_finish)
    show "\<forall>t. filter (\<lambda>i. type i = t) (issues ?r)
                   = filter (\<lambda>i. type i = t) (code_findings src @ log_findings logs)"
      by (simp only: issues_finish filter_type_sort) simp
  qed
  have b: "scan_code src [] = Some (code_findings src)"
    by (simp add: scan_code_eq code_findings_def)
  have c: "scan_logs logs (code_findings src) = Some (code_findings src @ log_findings logs)"
    by (rule scan_logs_after_code)
  have d: "code_findings src = map (code_finding src) (matches_of CODE_PATTERNS src)"
    by (simp only: code_findings_def code_matches_def)
  have e: "log_findings logs
       = map (log_finding logs) (dedup_first match_key {} (matches_of TERMINAL_PATTERNS logs))"
    by (simp only: log_findings_def log_matches_def)
  have "\<forall>s. sorted_wrt (<) (map fst (exec_all (regex p) s 0))"
    if "p \<in> set CODE_PATTERNS \<union> set TERMINAL_PATTERNS" for p
  proof -
    from good_rule_catalog [OF that]
    have "global (regex p)" and "0 < min_len (source (regex p))"
      by (simp_all add: good_rule_def)
    then show ?thesis
      by (intro allI exec_all_increasing)
  qed
  then have f: "\<forall>p \<in> set CODE_PATTERNS \<union> set TERMINAL_PATTERNS.
         \<forall>s. sorted_wrt (<) (map fst (exec_all (regex p) s 0))"
    by (rule ballI)
  from a b c d e f show ?thesis by (intro conjI)
qed

lemma ex_error_indices:
  "map fst (exec_all (regex (TERMINAL_PATTERNS ! 0)) ex_logs 0) = [0, 11]"
  by code_simp

theorem C2_sorted_stable_witness:
  "(\<exists>r. analyzeCode ex_code ex_logs = Some r
      \<and> issues r = [ex_error_issue, ex_var_issue]
      \<and> sorted (map (\<lambda>i. severityOrder (type i)) (issues r))
      \<and> (\<forall>t. filter (\<lambda>i. type i = t) (issues r)
               = filter (\<lambda>i. type i = t) [ex_var_issue, ex_error_issue]))
   \<and> code_findings ex_code @ log_findings ex_logs = [ex_var_issue, ex_error_issue]
   \<and> code_findings ex_order_code @ log_findings [] = [ex_todo_issue, ex_fixme_issue]
   \<and> type ex_todo_issue = Info \<and> type ex_fixme_issue = Warning
   \<and> (\<exists>r. analyzeCode ex_order_code [] = Some r
          \<and> issues r = [ex_fixme_issue, ex_todo_issue])
   \<and> TERMINAL_PATTERNS ! 0 \<in> set CODE_PATTERNS \<union> set TERMINAL_PATTERNS
   \<and> map fst (exec_all (regex (TERMINAL_PATTERNS ! 0)) ex_logs 0) = [0, 11]
   \<and> sorted_wrt (<) (map fst (exec_all (regex (TERMINAL_PATTERNS ! 0)) ex_logs 0))"
proof -
  note c2 = C2_sorted_stable [of ex_code ex_logs]
  have b: "code_findings ex_code @ log_findings ex_logs = [ex_var_issue, ex_error_issue]"
    by (simp add: ex_code_findings ex_log_findings)
  from c2 [THEN conjunct1]
  obtain r0 where r0: "analyzeCode ex_code ex_logs = Some r0"
    and s0: "sorted (map (\<lambda>i. severityOrder (type i)) (issues r0))"
    and f0: "\<forall>t. filter (\<lambda>i. type i = t) (issues r0)
               = filter (\<lambda>i. type i = t) (code_findings ex_code @ log_findings ex_logs)"
    by (elim exE conjE)
  from r0 have i0: "issues r0 = [ex_error_issue, ex_var_issue]"
    by (auto simp: ex_report)
  note f1 = f0 [unfolded b]
  from r0 i0 s0 f1
  have a: "\<exists>r. analyzeCode ex_code ex_logs = Some r
      \<and> issues r = [ex_error_issue, ex_var_issue]
      \<and> sorted (map (\<lambda>i. severityOrder (type i)) (issues r))
      \<and> (\<forall>t. filter (\<lambda>i. type i = t) (issues r)
               = filter (\<lambda>i. type i = t) [ex_var_issue, ex_error_issue])"
    by (intro exI conjI)
  have o: "code_findings ex_order_code @ log_findings [] = [ex_todo_issue, ex_fixme_issue]"
    by (simp add: ex_order_code_findings log_findings_Nil)
  have t: "type ex_todo_issue = Info" "type ex_fixme_issue = Warning"
    by (simp_all add: ex_todo_issue_def ex_fixme_issue_def)
  from C2_sorted_stable [of ex_order_code "[]", THEN conjunct1]
  obtain r where r: "analyzeCode ex_order_code [] = Some r"
    and i: "issues r
      = filter (\<lambda>i. type i = Error) (code_findings ex_order_code @ log_findings [])
        @ filter (\<lambda>i. type i = Warning) (code_findings ex_order_code @ log_findings [])
        @ filter (\<lambda>i. type i = Info) (code_findings ex_order_code @ log_findings [])"
    by (elim exE conjE)
  from i have "issues r = [ex_fixme_issue, ex_todo_issue]"
    by (simp add: o t)
  then have g: "\<exists>r. analyzeCode ex_order_code [] = Some r
          \<and> issues r = [ex_fixme_issue, ex_todo_issue]"
    using r by (intro exI conjI)
  have "length TERMINAL_PATTERNS = 16"
    by (simp add: TERMINAL_PATTERNS_def)
  then have "TERMINAL_PATTERNS ! 0 \<in> set TERMINAL_PATTERNS"
    by simp
  then have mem: "TERMINAL_PATTERNS ! 0 \<in> set CODE_PATTERNS \<union> set TERMINAL_PATTERNS"
    by (rule UnI2)
  from c2 have "\<forall>p \<in> set CODE_PATTERNS \<union> set TERMINAL_PATTERNS.
         \<forall>s. sorted_wrt (<) (map fst (exec_all (regex p) s 0))"
    by (elim conjE)
  note d = bspec [OF this mem, THEN spec, of ex_logs]
  from a b o t g mem ex_error_indices d show ?thesis by (intro conjI)
qed

text \<open>
  C3. For every pair of inputs the summary of the report is the sentence that the
  specification's table gives for the counts of the report, where each count word takes
  an \<open>s\<close> exactly when its count is not 1.
\<close>

theorem C3_summary_table:
  "\<exists>r. analyzeCode src logs = Some r
      \<and> spec_summary (length (issues r)) (stats r) = Some (summary r)"
proof -
  let ?r = "finish (code_findings src @ log_findings logs)"
  have "errors (stats ?r) + warnings (stats ?r) + info (stats ?r) = length (issues ?r)"
    by (rule stats_finish_sum)
  from make_summary_spec [OF this]
  have "spec_summary (length (issues ?r)) (stats ?r) = Some (summary ?r)"
    by (simp add: summary_finish)
  then show ?thesis
    by (simp add: analyzeCode_eq)
qed

theorem C3_summary_table_witness:
  "\<exists>r. analyzeCode ex_code ex_logs = Some r
      \<and> stats r = \<lparr>errors = 1, warnings = 1, info = 0\<rparr>
      \<and> summary r = js ''Found 1 error, 1 warning, and 0 info messages. Address errors first.''
      \<and> spec_summary (length (issues r)) (stats r) = Some (summary r)"
  using C3_summary_table [of ex_code ex_logs]
  by (simp add: ex_report)

text \<open>
  C4. For every pair of inputs each field of the statistics of the report is the number
  of findings of that severity in the findings of the report, and the three fields add
  up to the number of findings.
\<close>

theorem C4_stats_consistent:
  "\<exists>r. analyzeCode src logs = Some r
      \<and> errors (stats r) = length (filter (\<lambda>i. type i = Error) (issues r))
      \<and> warnings (stats r) = length (filter (\<lambda>i. type i = Warning) (issues r))
      \<and> info (stats r) = length (filter (\<lambda>i. type i = Info) (issues r))
      \<and> errors (stats r) + warnings (stats r) + info (stats r) = length (issues r)"
proof -
  let ?r = "finish (code_findings src @ log_findings logs)"
  have "errors (stats ?r) = length (filter (\<lambda>i. type i = Error) (issues ?r))"
    and "warnings (stats ?r) = length (filter (\<lambda>i. type i = Warning) (issues ?r))"
    and "info (stats ?r) = length (filter (\<lambda>i. type i = Info) (issues ?r))"
    by (rule stats_finish_fields)+
  moreover have "errors (stats ?r) + warnings (stats ?r) + info (stats ?r) = length (issues ?r)"
    by (rule stats_finish_sum)
  ultimately show ?thesis
    by (simp add: analyzeCode_eq)
qed

theorem C4_stats_consistent_witness:
  "\<exists>r. analyzeCode ex_code ex_logs = Some r
      \<and> length (issues r) = 2
      \<and> errors (stats r) = length (filter (\<lambda>i. type i = Error) (issues r))
      \<and> warnings (stats r) = length (filter (\<lambda>i. type i = Warning) (issues r))
      \<and> info (stats r) = length (filter (\<lambda>i. type i = Info) (issues r))
      \<and> errors (stats r) + warnings (stats r) + info (stats r) = length (issues r)"
  using C4_stats_consistent [of ex_code ex_logs]
  by (simp add: ex_report)

section \<open>Claims about the scan of the terminal output\<close>

lemma filter_key_log_findings:
  "filter (\<lambda>i. category i = c \<and> type i = t) (log_findings logs) =
     (case find (\<lambda>m. match_key m = (c, t)) (log_matches logs) of
        None \<Rightarrow> []
      | Some m \<Rightarrow> [log_finding logs m])"
proof -
  have k: "(\<lambda>i. category i = c \<and> type i = t) \<circ> log_finding logs = (\<lambda>m. match_key m = (c, t))"
    using issue_key_log_finding [of logs] by (auto simp: fun_eq_iff issue_key_def)
  show ?thesis
    unfolding log_findings_def filter_map k
    by (simp add: filter_dedup_first split: option.splits)
qed

lemma log_findings_origin:
  assumes "i \<in> set (log_findings logs)"
  obtains p idx m0 where "(p, idx, m0) \<in> set (log_matches logs)"
    and "p \<in> set TERMINAL_PATTERNS" and "i = log_finding logs (p, idx, m0)"
proof -
  from assms obtain m where m: "m \<in> set (log_matches logs)" and i: "i = log_finding logs m"
    using set_dedup_first [of match_key "{}" "log_matches logs"]
    by (auto simp: log_findings_def)
  obtain p idx m0 where "m = (p, idx, m0)" by (cases m)
  with m i matches_of_pattern [of p "(idx, m0)" TERMINAL_PATTERNS logs] that show thesis
    by (simp add: log_matches_def)
qed

lemma code_findings_origin:
  assumes "i \<in> set (code_findings src)"
  obtains p idx m0 where "(p, idx, m0) \<in> set (code_matches src)"
    and "p \<in> set CODE_PATTERNS" and "i = code_finding src (p, idx, m0)"
proof -
  from assms obtain m where m: "m \<in> set (code_matches src)" and i: "i = code_finding src m"
    by (auto simp: code_findings_def)
  obtain p idx m0 where "m = (p, idx, m0)" by (cases m)
  with m i matches_of_pattern [of p "(idx, m0)" CODE_PATTERNS src] that show thesis
    by (simp add: code_matches_def)
qed

lemma scan_code_findings: "scan_code src [] = Some (code_findings src)"
  by (simp add: scan_code_eq code_findings_def)

text \<open>
  C1. The scan of the terminal output appends to the accumulated findings one finding
  for the first match (in detection order) of each pair of category and severity that no
  accumulated finding has, and nothing for the other matches. In a call of the analyzer,
  for every pair of category and severity, the findings of the terminal output with that
  pair are: none if no match of a terminal rule has the pair, and otherwise exactly the
  finding of the first such match, whose message embeds the text of that match, whatever
  the code is. The findings of the code are those of all the matches of the code rules,
  whatever the terminal output is.
\<close>

theorem C1_log_dedup:
  "(\<forall>acc. scan_logs logs acc =
            Some (acc @ map (log_finding logs)
                          (dedup_first match_key (issue_key ` set acc) (log_matches logs))))
   \<and> scan_code src [] = Some (code_findings src)
   \<and> scan_logs logs (code_findings src) = Some (code_findings src @ log_findings logs)
   \<and> analyzeCode src logs = Some (finish (code_findings src @ log_findings logs))
   \<and> code_findings src = map (code_finding src) (code_matches src)
   \<and> (\<forall>c t. filter (\<lambda>i. category i = c \<and> type i = t) (log_findings logs) =
              (case find (\<lambda>m. match_key m = (c, t)) (log_matches logs) of
                 None \<Rightarrow> []
               | Some m \<Rightarrow> [log_finding logs m]))"
  using scan_logs_eq [of logs] scan_code_findings [of src] scan_logs_after_code [of logs src]
    analyzeCode_eq [of src logs] filter_key_log_findings [of _ _ logs]
  by (simp add: code_findings_def)

theorem C1_log_dedup_witness:
  "map (\<lambda>m. (match_key m, snd m)) (log_matches ex_logs) =
     [((js ''Runtime Error'', Error), 0, js ''Error: foo''),
      ((js ''Runtime Error'', Error), 11, js ''Error: bar'')]
   \<and> scan_logs ex_logs [ex_var_issue] = Some ([ex_var_issue] @ [ex_error_issue])
   \<and> filter (\<lambda>i. category i = js ''Runtime Error'' \<and> type i = Error) [ex_error_issue]
       = (case find (\<lambda>m. match_key m = (js ''Runtime Error'', Error)) (log_matches ex_logs) of
            None \<Rightarrow> []
          | Some m \<Rightarrow> [log_finding ex_logs m])
   \<and> filter (\<lambda>i. category i = js ''Runtime Error'' \<and> type i = Error) [ex_error_issue]
       = [ex_error_issue]
   \<and> message ex_error_issue = js ''Error detected in terminal output: \"Error: foo\"''"
proof -
  note c1 = C1_log_dedup [of ex_logs ex_code]
  from c1 have "scan_logs ex_logs (code_findings ex_code)
                  = Some (code_findings ex_code @ log_findings ex_logs)"
    by (elim conjE)
  then have a: "scan_logs ex_logs [ex_var_issue] = Some ([ex_var_issue] @ [ex_error_issue])"
    by (simp only: ex_code_findings ex_log_findings)
  from c1 have "\<forall>c t. filter (\<lambda>i. category i = c \<and> type i = t) (log_findings ex_logs) =
              (case find (\<lambda>m. match_key m = (c, t)) (log_matches ex_logs) of
                 None \<Rightarrow> []
               | Some m \<Rightarrow> [log_finding ex_logs m])"
    by (elim conjE)
  then have b: "filter (\<lambda>i. category i = js ''Runtime Error'' \<and> type i = Error) [ex_error_issue]
       = (case find (\<lambda>m. match_key m = (js ''Runtime Error'', Error)) (log_matches ex_logs) of
            None \<Rightarrow> []
          | Some m \<Rightarrow> [log_finding ex_logs m])"
    by (simp only: ex_log_findings)
  have c: "filter (\<lambda>i. category i = js ''Runtime Error'' \<and> type i = Error) [ex_error_issue]
       = [ex_error_issue]"
    by (simp add: ex_error_issue_def)
  have d: "message ex_error_issue = js ''Error detected in terminal output: \"Error: foo\"''"
    by (simp add: ex_error_issue_def)
  from ex_log_matches a b c d show ?thesis by (intro conjI)
qed

text \<open>
  C5. The message of every finding of the terminal output is the message of its rule,
  then a colon, a space and a double quote, then the matched text, cut to its first 50
  characters and followed by three dots if it is longer than 50 characters and in full
  otherwise, then a double quote.
\<close>

theorem C5_log_message:
  "scan_logs logs (code_findings src) = Some (code_findings src @ log_findings logs)
   \<and> (\<forall>i \<in> set (log_findings logs).
         \<exists>p idx m0. (p, idx, m0) \<in> set (log_matches logs) \<and> p \<in> set TERMINAL_PATTERNS
           \<and> type i = ptype p \<and> category i = pcategory p
           \<and> message i = pmessage p @ js '': \"''
                 @ (if 50 < length m0 then take 50 m0 @ js ''...'' else m0) @ js ''\"'')"
proof -
  have "\<exists>p idx m0. (p, idx, m0) \<in> set (log_matches logs) \<and> p \<in> set TERMINAL_PATTERNS
           \<and> type i = ptype p \<and> category i = pcategory p
           \<and> message i = pmessage p @ js '': \"''
                 @ (if 50 < length m0 then take 50 m0 @ js ''...'' else m0) @ js ''\"''"
    if "i \<in> set (log_findings logs)" for i
  proof -
    from that obtain p idx m0 where m: "(p, idx, m0) \<in> set (log_matches logs)"
      and p: "p \<in> set TERMINAL_PATTERNS" and i: "i = log_finding logs (p, idx, m0)"
      by (rule log_findings_origin)
    have "message i = pmessage p @ js '': \"''
            @ (if 50 < length m0 then take 50 m0 @ js ''...'' else m0) @ js ''\"''"
      by (simp add: i log_issue_def js_def)
    moreover have "type i = ptype p" "category i = pcategory p"
      by (simp_all add: i log_issue_def)
    ultimately show ?thesis using m p by blast
  qed
  with scan_logs_after_code [of logs src] show ?thesis by blast
qed

theorem C5_log_message_witness:
  "ex_error_issue \<in> set (log_findings ex_logs)
   \<and> (\<exists>p idx m0. (p, idx, m0) \<in> set (log_matches ex_logs) \<and> p \<in> set TERMINAL_PATTERNS
           \<and> type ex_error_issue = ptype p \<and> category ex_error_issue = pcategory p
           \<and> message ex_error_issue = pmessage p @ js '': \"''
                 @ (if 50 < length m0 then take 50 m0 @ js ''...'' else m0) @ js ''\"'')
   \<and> hd (log_findings ex_long_logs) \<in> set (log_findings ex_long_logs)
   \<and> message (hd (log_findings ex_long_logs))
         = js ''Error detected in terminal output: \"Error: '' @ replicate 43 120 @ js ''...\"''
   \<and> (\<exists>p idx m0. (p, idx, m0) \<in> set (log_matches ex_long_logs)
         \<and> p \<in> set TERMINAL_PATTERNS
         \<and> type (hd (log_findings ex_long_logs)) = ptype p
         \<and> category (hd (log_findings ex_long_logs)) = pcategory p
         \<and> message (hd (log_findings ex_long_logs)) = pmessage p @ js '': \"''
               @ (if 50 < length m0 then take 50 m0 @ js ''...'' else m0) @ js ''\"'')"
proof -
  have mem: "ex_error_issue \<in> set (log_findings ex_logs)"
    by (simp add: ex_log_findings)
  note a = C5_log_message [of ex_logs ex_code, THEN conjunct2, THEN bspec, OF mem]
  from ex_long_log_messages have ne: "log_findings ex_long_logs \<noteq> []"
    by (cases "log_findings ex_long_logs") simp_all
  then have mem': "hd (log_findings ex_long_logs) \<in> set (log_findings ex_long_logs)"
    by (rule hd_in_set)
  from ne have "message (hd (log_findings ex_long_logs))
                  = hd (map message (log_findings ex_long_logs))"
    by (rule hd_map [symmetric])
  then have m: "message (hd (log_findings ex_long_logs))
         = js ''Error detected in terminal output: \"Error: '' @ replicate 43 120 @ js ''...\"''"
    by (simp only: ex_long_log_messages list.sel)
  note b = C5_log_message [of ex_long_logs ex_code, THEN conjunct2, THEN bspec, OF mem']
  from mem a mem' m b show ?thesis by (intro conjI)
qed

text \<open>
  C10. No finding of the terminal output has a suggestion or a fix: in every report, a
  finding that has one of them is a finding of the code.
\<close>

theorem C10_log_findings_plain:
  "scan_code src [] = Some (code_findings src)
   \<and> scan_logs logs (code_findings src) = Some (code_findings src @ log_findings logs)
   \<and> (\<forall>i \<in> set (log_findings logs). suggestion i = None \<and> code i = None)
   \<and> (\<exists>r. analyzeCode src logs = Some r
          \<and> (\<forall>i \<in> set (issues r).
                suggestion i \<noteq> None \<or> code i \<noteq> None \<longrightarrow> i \<in> set (code_findings src)))"
proof -
  have plain: "suggestion i = None \<and> code i = None" if "i \<in> set (log_findings logs)" for i
  proof -
    from that obtain p idx m0 where p: "p \<in> set TERMINAL_PATTERNS"
      and i: "i = log_finding logs (p, idx, m0)"
      by (rule log_findings_origin)
    from p terminal_patterns_plain have "psuggestion p = None"
      by (auto simp: list_all_iff)
    then show ?thesis by (simp add: i log_issue_def)
  qed
  let ?r = "finish (code_findings src @ log_findings logs)"
  have "set (issues ?r) = set (code_findings src) \<union> set (log_findings logs)"
    by (simp add: issues_finish)
  with plain have "\<forall>i \<in> set (issues ?r).
      suggestion i \<noteq> None \<or> code i \<noteq> None \<longrightarrow> i \<in> set (code_findings src)"
    by auto
  with analyzeCode_eq [of src logs]
  have r: "\<exists>r. analyzeCode src logs = Some r
          \<and> (\<forall>i \<in> set (issues r).
                suggestion i \<noteq> None \<or> code i \<noteq> None \<longrightarrow> i \<in> set (code_findings src))"
    by (intro exI conjI)
  from plain have p: "\<forall>i \<in> set (log_findings logs). suggestion i = None \<and> code i = None"
    by (intro ballI)
  from scan_code_findings [of src] scan_logs_after_code [of logs src] p r
  show ?thesis by (intro conjI)
qed

theorem C10_log_findings_plain_witness:
  "ex_error_issue \<in> set (log_findings ex_logs)
   \<and> suggestion ex_error_issue = None \<and> code ex_error_issue = None
   \<and> ex_var_issue \<in> set (code_findings ex_code) \<and> suggestion ex_var_issue \<noteq> None"
proof -
  have mem: "ex_error_issue \<in> set (log_findings ex_logs)"
    by (simp add: ex_log_findings)
  from C10_log_findings_plain [of ex_code ex_logs]
  have "\<forall>i \<in> set (log_findings ex_logs). suggestion i = None \<and> code i = None"
    by (elim conjE)
  from bspec [OF this mem]
  have a: "suggestion ex_error_issue = None" and b: "code ex_error_issue = None"
    by simp_all
  have c: "ex_var_issue \<in> set (code_findings ex_code)"
    by (simp add: ex_code_findings)
  have d: "suggestion ex_var_issue \<noteq> None"
    by (simp add: ex_var_issue_def)
  from mem a b c d show ?thesis by (intro conjI)
qed

section \<open>Claims about line numbers, blank inputs and termination\<close>

lemma search_text:
  "search re i prev xs = Some (idx, m0) \<Longrightarrow> take (length m0) (drop (idx - i) xs) = m0"
proof (induction xs arbitrary: i prev)
  case Nil
  then show ?case by (auto split: list.splits)
next
  case (Cons x xs)
  show ?case
  proof (cases "matcher (ignoreCase re) (multiline re) (source re) (prev, x # xs)")
    case Nil
    with Cons.prems have s: "search re (Suc i) (Some x) xs = Some (idx, m0)" by simp
    from search_bounds [OF s] have "idx - i = Suc (idx - Suc i)" by arith
    with Cons.IH [OF s] show ?thesis by simp
  next
    case (Cons e es)
    with Cons.prems have "idx = i" and "m0 = take (length (x # xs) - length (snd e)) (x # xs)"
      by simp_all
    then show ?thesis by (simp add: min_def)
  qed
qed

lemma regex_exec_text:
  assumes "regex_exec re s i = (Some (idx, m0), li)"
  shows "take (length m0) (drop idx s) = m0"
proof -
  define j where "j = (if global re then i else 0)"
  from assms have s: "search re j (char_before s j) (drop j s) = Some (idx, m0)"
    by (auto simp: regex_exec_def Let_def j_def split: if_splits option.splits)
  from search_bounds [OF s] have "j \<le> idx" by simp
  with search_text [OF s] show ?thesis by simp
qed

lemma exec_all_text:
  "(idx, m0) \<in> set (exec_all re s i) \<Longrightarrow> take (length m0) (drop idx s) = m0"
proof (induction re s i rule: exec_all.induct)
  case (1 re s i)
  show ?case
  proof (cases "regex_exec re s i")
    case (Pair r li)
    show ?thesis
    proof (cases r)
      case None
      with Pair "1.prems" show ?thesis
        by (subst (asm) exec_all.simps) simp
    next
      case (Some m)
      obtain idx' m0' where "m = (idx', m0')" by (cases m)
      with Pair Some have ex: "regex_exec re s i = (Some (idx', m0'), li)" by simp
      from "1.prems" ex consider "(idx, m0) = (idx', m0')"
        | "i < li" "(idx, m0) \<in> set (exec_all re s li)"
        by (subst (asm) exec_all.simps) (auto split: if_splits)
      then show ?thesis
      proof cases
        case 1
        with regex_exec_text [OF ex] show ?thesis by simp
      next
        case 2
        from "1.IH" [OF ex [symmetric] refl refl 2(1) 2(2)] show ?thesis .
      qed
    qed
  qed
qed

lemma matches_of_text:
  "(p, idx, m0) \<in> set (matches_of ps s) \<Longrightarrow> take (length m0) (drop idx s) = m0"
  by (auto simp: matches_of_def split: if_splits dest: exec_all_text)

lemma exec_all_length:
  "global re \<Longrightarrow> 0 < min_len (source re) \<Longrightarrow> length (exec_all re s i) \<le> length s - i"
proof (induction re s i rule: exec_all.induct)
  case (1 re s i)
  show ?case
  proof (cases "regex_exec re s i")
    case (Pair r li)
    show ?thesis
    proof (cases r)
      case None
      with Pair show ?thesis by (subst exec_all.simps) simp
    next
      case (Some m)
      obtain idx m0 where "m = (idx, m0)" by (cases m)
      with Pair Some have ex: "regex_exec re s i = (Some (idx, m0), li)" by simp
      from regex_exec_progress [OF ex "1.prems"] have lt: "i < li" .
      from regex_exec_bounds [OF ex "1.prems"(1)] have le: "li \<le> length s" by simp
      from "1.IH" [OF ex [symmetric] refl refl lt "1.prems"]
      have "length (exec_all re s li) \<le> length s - li" .
      with lt le show ?thesis
        by (subst exec_all.simps) (simp add: ex)
    qed
  qed
qed

lemma dropWhile_all: "\<forall>c \<in> set s. P c \<Longrightarrow> dropWhile P s = []"
  by (induction s) auto

lemma trim_blank: "\<forall>c \<in> set s. is_space c \<Longrightarrow> trim s = []"
  unfolding trim_def by (simp only: dropWhile_all rev.simps dropWhile.simps)

lemma in_set_dropWhile: "x \<in> set xs \<Longrightarrow> \<not> P x \<Longrightarrow> x \<in> set (dropWhile P xs)"
  by (induction xs) auto

lemma dropWhile_NilD: "dropWhile P xs = [] \<Longrightarrow> x \<in> set xs \<Longrightarrow> P x"
  by (induction xs) (auto split: if_splits)

lemma trim_nonblank:
  assumes "c \<in> set s" and "\<not> is_space c"
  shows "trim s \<noteq> []"
proof
  assume "trim s = []"
  then have e: "dropWhile is_space (rev (dropWhile is_space s)) = []"
    unfolding trim_def rev_is_Nil_conv .
  from in_set_dropWhile [of c s is_space, OF assms]
  have m: "c \<in> set (rev (dropWhile is_space s))"
    by (simp only: set_rev)
  from assms(2) dropWhile_NilD [OF e m] show False
    by (rule notE)
qed

lemma matches_of_blank: "(\<forall>c \<in> set s. is_space c) \<Longrightarrow> matches_of ps s = []"
  by (simp add: matches_of_def trim_blank del: dropWhile_eq_Nil_conv)

lemma set_issues_finish: "set (issues (finish acc)) = set acc"
  by (simp add: issues_finish)

text \<open>
  C6. The line of every finding is one more than the number of newline characters in the
  input text before the index at which its match starts (the matched text is found at
  that index). Every finding of a report is a finding of the code or of the terminal
  output. For the code of the worked example, whose third line has the \<open>var\<close>
  declaration, the only finding of the code is the \<open>var\<close> finding, its line is 3, and it
  is in the report whatever the terminal output is.
\<close>

theorem C6_line_number:
  "(\<forall>i \<in> set (code_findings src).
       \<exists>p idx m0. (p, idx, m0) \<in> set (code_matches src) \<and> i = code_finding src (p, idx, m0)
         \<and> take (length m0) (drop idx src) = m0
         \<and> line i = Some (newlines (take idx src) + 1))
   \<and> (\<forall>i \<in> set (log_findings logs).
       \<exists>p idx m0. (p, idx, m0) \<in> set (log_matches logs) \<and> i = log_finding logs (p, idx, m0)
         \<and> take (length m0) (drop idx logs) = m0
         \<and> line i = Some (newlines (take idx logs) + 1))
   \<and> (\<exists>r. analyzeCode src logs = Some r
          \<and> set (issues r) = set (code_findings src) \<union> set (log_findings logs))
   \<and> code_findings ex_code = [ex_var_issue] \<and> line ex_var_issue = Some 3
   \<and> (\<exists>r. analyzeCode ex_code logs = Some r \<and> ex_var_issue \<in> set (issues r))"
proof -
  have a: "\<exists>p idx m0. (p, idx, m0) \<in> set (code_matches src) \<and> i = code_finding src (p, idx, m0)
         \<and> take (length m0) (drop idx src) = m0
         \<and> line i = Some (newlines (take idx src) + 1)"
    if "i \<in> set (code_findings src)" for i
  proof -
    from that obtain p idx m0 where m: "(p, idx, m0) \<in> set (code_matches src)"
      and i: "i = code_finding src (p, idx, m0)"
      by (rule code_findings_origin)
    from m have "take (length m0) (drop idx src) = m0"
      unfolding code_matches_def by (rule matches_of_text)
    moreover have "line i = Some (newlines (take idx src) + 1)"
      by (simp add: i code_issue_def findLineNumber_newlines)
    ultimately show ?thesis using m i by blast
  qed
  have b: "\<exists>p idx m0. (p, idx, m0) \<in> set (log_matches logs) \<and> i = log_finding logs (p, idx, m0)
         \<and> take (length m0) (drop idx logs) = m0
         \<and> line i = Some (newlines (take idx logs) + 1)"
    if "i \<in> set (log_findings logs)" for i
  proof -
    from that obtain p idx m0 where m: "(p, idx, m0) \<in> set (log_matches logs)"
      and i: "i = log_finding logs (p, idx, m0)"
      by (rule log_findings_origin)
    from m have "take (length m0) (drop idx logs) = m0"
      unfolding log_matches_def by (rule matches_of_text)
    moreover have "line i = Some (newlines (take idx logs) + 1)"
      by (simp add: i log_issue_def findLineNumber_newlines)
    ultimately show ?thesis using m i by blast
  qed
  have c: "\<exists>r. analyzeCode s l = Some r
          \<and> set (issues r) = set (code_findings s) \<union> set (log_findings l)" for s l
    by (simp add: analyzeCode_eq set_issues_finish)
  have d: "\<exists>r. analyzeCode ex_code logs = Some r \<and> ex_var_issue \<in> set (issues r)"
    by (simp add: analyzeCode_eq set_issues_finish ex_code_findings)
  have e: "line ex_var_issue = Some 3"
    by (simp add: ex_var_issue_def)
  from a b c [of src logs] ex_code_findings e d show ?thesis
    by (intro conjI ballI)
qed

theorem C6_line_number_witness:
  "ex_var_issue \<in> set (code_findings ex_code)
   \<and> (\<exists>p idx m0. (p, idx, m0) \<in> set (code_matches ex_code)
         \<and> ex_var_issue = code_finding ex_code (p, idx, m0)
         \<and> take (length m0) (drop idx ex_code) = m0
         \<and> line ex_var_issue = Some (newlines (take idx ex_code) + 1))
   \<and> ex_error_issue \<in> set (log_findings ex_logs)
   \<and> (\<exists>p idx m0. (p, idx, m0) \<in> set (log_matches ex_logs)
         \<and> ex_error_issue = log_finding ex_logs (p, idx, m0)
         \<and> take (length m0) (drop idx ex_logs) = m0
         \<and> line ex_error_issue = Some (newlines (take idx ex_logs) + 1))"
proof -
  note c6 = C6_line_number [of ex_code ex_logs]
  have m1: "ex_var_issue \<in> set (code_findings ex_code)"
    by (simp add: ex_code_findings)
  have m2: "ex_error_issue \<in> set (log_findings ex_logs)"
    by (simp add: ex_log_findings)
  from c6 have "\<forall>i \<in> set (code_findings ex_code).
       \<exists>p idx m0. (p, idx, m0) \<in> set (code_matches ex_code)
         \<and> i = code_finding ex_code (p, idx, m0)
         \<and> take (length m0) (drop idx ex_code) = m0
         \<and> line i = Some (newlines (take idx ex_code) + 1)"
    by (elim conjE)
  from bspec [OF this m1] have a: "\<exists>p idx m0. (p, idx, m0) \<in> set (code_matches ex_code)
         \<and> ex_var_issue = code_finding ex_code (p, idx, m0)
         \<and> take (length m0) (drop idx ex_code) = m0
         \<and> line ex_var_issue = Some (newlines (take idx ex_code) + 1)" .
  from c6 have "\<forall>i \<in> set (log_findings ex_logs).
       \<exists>p idx m0. (p, idx, m0) \<in> set (log_matches ex_logs)
         \<and> i = log_finding ex_logs (p, idx, m0)
         \<and> take (length m0) (drop idx ex_logs) = m0
         \<and> line i = Some (newlines (take idx ex_logs) + 1)"
    by (elim conjE)
  from bspec [OF this m2] have b: "\<exists>p idx m0. (p, idx, m0) \<in> set (log_matches ex_logs)
         \<and> ex_error_issue = log_finding ex_logs (p, idx, m0)
         \<and> take (length m0) (drop idx ex_logs) = m0
         \<and> line ex_error_issue = Some (newlines (take idx ex_logs) + 1)" .
  from m1 a m2 b show ?thesis by (intro conjI)
qed

text \<open>
  C7. The analyzer returns a report for every pair of strings. On a string that is empty
  or has only white space, the scan of the code, and likewise the scan of the terminal
  output, applies no rule: it returns the accumulated findings as they are and the input
  has no findings. On two empty strings the report has no findings, all counts zero and
  the clean-code sentence.
\<close>

theorem C7_blank_inputs:
  "(\<exists>r. analyzeCode src logs = Some r)
   \<and> ((\<forall>c \<in> set src. is_space c) \<longrightarrow>
        scan_code src acc = Some acc \<and> code_matches src = [] \<and> code_findings src = []
        \<and> analyzeCode src logs = Some (finish (log_findings logs)))
   \<and> ((\<forall>c \<in> set logs. is_space c) \<longrightarrow>
        scan_logs logs acc = Some acc \<and> log_matches logs = [] \<and> log_findings logs = []
        \<and> analyzeCode src logs = Some (finish (code_findings src)))
   \<and> analyzeCode [] [] =
       Some \<lparr>issues = [], summary = js ''No issues detected. Code looks clean!'',
             stats = \<lparr>errors = 0, warnings = 0, info = 0\<rparr>\<rparr>"
proof -
  have a: "\<exists>r. analyzeCode src logs = Some r"
    by (simp add: analyzeCode_eq)
  have b: "scan_code src acc = Some acc \<and> code_matches src = [] \<and> code_findings src = []
        \<and> analyzeCode src logs = Some (finish (log_findings logs))"
    if "\<forall>c \<in> set src. is_space c"
  proof -
    from that have "code_matches src = []"
      unfolding code_matches_def by (rule matches_of_blank)
    then show ?thesis
      by (simp add: scan_code_eq code_findings_def analyzeCode_eq)
  qed
  have c: "scan_logs logs acc = Some acc \<and> log_matches logs = [] \<and> log_findings logs = []
        \<and> analyzeCode src logs = Some (finish (code_findings src))"
    if "\<forall>c \<in> set logs. is_space c"
  proof -
    from that have "log_matches logs = []"
      unfolding log_matches_def by (rule matches_of_blank)
    then show ?thesis
      by (simp add: scan_logs_eq log_findings_def analyzeCode_eq)
  qed
  have "code_findings [] = []" and "log_findings [] = []"
    using matches_of_blank [of "[]"]
    by (simp_all add: code_findings_def log_findings_def code_matches_def log_matches_def)
  then have d: "analyzeCode [] [] =
       Some \<lparr>issues = [], summary = js ''No issues detected. Code looks clean!'',
             stats = \<lparr>errors = 0, warnings = 0, info = 0\<rparr>\<rparr>"
    by (simp add: analyzeCode_eq finish_def count_type_def make_summary_def)
  from b have b': "(\<forall>c \<in> set src. is_space c) \<longrightarrow>
        scan_code src acc = Some acc \<and> code_matches src = [] \<and> code_findings src = []
        \<and> analyzeCode src logs = Some (finish (log_findings logs))"
    by (rule impI)
  from c have c': "(\<forall>c \<in> set logs. is_space c) \<longrightarrow>
        scan_logs logs acc = Some acc \<and> log_matches logs = [] \<and> log_findings logs = []
        \<and> analyzeCode src logs = Some (finish (code_findings src))"
    by (rule impI)
  from a b' c' d show ?thesis by (intro conjI)
qed

theorem C7_blank_inputs_witness:
  "is_space 32 \<and> is_space 10 \<and> is_space 9
   \<and> scan_code [32, 10, 9] [ex_error_issue] = Some [ex_error_issue]
   \<and> scan_logs [32, 10, 9] [ex_var_issue] = Some [ex_var_issue]
   \<and> analyzeCode [32, 10, 9] ex_logs = Some (finish [ex_error_issue])
   \<and> analyzeCode ex_code [32, 10, 9] = Some (finish [ex_var_issue])"
proof -
  have s: "is_space 32" "is_space 10" "is_space 9"
    by (simp_all add: is_space_def)
  then have h: "\<forall>c \<in> set [32, 10, 9]. is_space c"
    by simp
  note c7a = C7_blank_inputs [of "[32, 10, 9]" ex_logs "[ex_error_issue]"]
  note c7b = C7_blank_inputs [of ex_code "[32, 10, 9]" "[ex_var_issue]"]
  note a1 = c7a [THEN conjunct2, THEN conjunct1, THEN mp, OF h]
  note b1 = c7b [THEN conjunct2, THEN conjunct2, THEN conjunct1, THEN mp, OF h]
  from a1 have a: "scan_code [32, 10, 9] [ex_error_issue] = Some [ex_error_issue]"
    by (rule conjunct1)
  from a1 have "analyzeCode [32, 10, 9] ex_logs = Some (finish (log_findings ex_logs))"
    by (elim conjE)
  then have b: "analyzeCode [32, 10, 9] ex_logs = Some (finish [ex_error_issue])"
    by (simp only: ex_log_findings)
  from b1 have c: "scan_logs [32, 10, 9] [ex_var_issue] = Some [ex_var_issue]"
    by (rule conjunct1)
  from b1 have "analyzeCode ex_code [32, 10, 9] = Some (finish (code_findings ex_code))"
    by (elim conjE)
  then have d: "analyzeCode ex_code [32, 10, 9] = Some (finish [ex_var_issue])"
    by (simp only: ex_code_findings)
  from s a c b d show ?thesis by (intro conjI)
qed

text \<open>
  C9. The analyzer returns a report for every pair of strings. Every rule of the two
  tables has the \<open>g\<close> flag and matches no empty text, so each successful \<open>exec\<close>
  moves \<open>lastIndex\<close> strictly forward, within the input; both \<open>while\<close> loops end on
  every rule of the tables, from every \<open>lastIndex\<close> and with every accumulated list; a
  rule has at most as many matches as the input has characters, so the number of matches
  is at most the size of the table times the length of the input.
\<close>

theorem C9_total:
  "(\<exists>r. analyzeCode src logs = Some r)
   \<and> (\<forall>p \<in> set CODE_PATTERNS \<union> set TERMINAL_PATTERNS.
        global (regex p)
        \<and> (\<forall>s i idx m0 li. regex_exec (regex p) s i = (Some (idx, m0), li) \<longrightarrow>
               m0 \<noteq> [] \<and> i < li \<and> li \<le> length s)
        \<and> (\<forall>s i acc. code_while p s i acc \<noteq> None \<and> log_while p s i acc \<noteq> None)
        \<and> (\<forall>s i. length (exec_all (regex p) s i) \<le> length s - i))
   \<and> length (code_matches src) \<le> length CODE_PATTERNS * length src
   \<and> length (log_matches logs) \<le> length TERMINAL_PATTERNS * length logs"
proof -
  have a: "\<exists>r. analyzeCode src logs = Some r"
    by (simp add: analyzeCode_eq)
  have b: "global (regex p)
        \<and> (\<forall>s i idx m0 li. regex_exec (regex p) s i = (Some (idx, m0), li) \<longrightarrow>
               m0 \<noteq> [] \<and> i < li \<and> li \<le> length s)
        \<and> (\<forall>s i acc. code_while p s i acc \<noteq> None \<and> log_while p s i acc \<noteq> None)
        \<and> (\<forall>s i. length (exec_all (regex p) s i) \<le> length s - i)"
    if "p \<in> set CODE_PATTERNS \<union> set TERMINAL_PATTERNS" for p
  proof -
    from good_rule_catalog [OF that]
    have g: "global (regex p)" and n: "0 < min_len (source (regex p))"
      by (simp_all add: good_rule_def)
    have "m0 \<noteq> [] \<and> i < li \<and> li \<le> length s"
      if ex: "regex_exec (regex p) s i = (Some (idx, m0), li)" for s i idx m0 li
      using regex_exec_min_len [OF ex] regex_exec_progress [OF ex g n]
        regex_exec_bounds [OF ex g] n
      by auto
    moreover have "code_while p s i acc \<noteq> None \<and> log_while p s i acc \<noteq> None" for s i acc
      by (simp add: code_while_total [OF g n] log_while_total [OF g n])
    moreover have "length (exec_all (regex p) s i) \<le> length s - i" for s i
      by (rule exec_all_length [OF g n])
    ultimately show ?thesis using g by blast
  qed
  have c: "length (matches_of ps s) \<le> length ps * length s" if "list_all good_rule ps" for ps s
    using that
  proof (induction ps)
    case Nil
    then show ?case by (simp add: matches_of_def)
  next
    case (Cons p ps)
    from Cons.prems have "good_rule p" and r: "list_all good_rule ps"
      by simp_all
    then have g: "global (regex p)" and n: "0 < min_len (source (regex p))"
      by (simp_all add: good_rule_def)
    from exec_all_length [OF g n, of s 0] Cons.IH [OF r] show ?case
      by (simp add: matches_of_def split: if_splits)
  qed
  from c [OF code_patterns_good, of src] c [OF terminal_patterns_good, of logs]
  have d: "length (code_matches src) \<le> length CODE_PATTERNS * length src"
    and e: "length (log_matches logs) \<le> length TERMINAL_PATTERNS * length logs"
    by (simp_all add: code_matches_def log_matches_def)
  from b have b': "\<forall>p \<in> set CODE_PATTERNS \<union> set TERMINAL_PATTERNS.
        global (regex p)
        \<and> (\<forall>s i idx m0 li. regex_exec (regex p) s i = (Some (idx, m0), li) \<longrightarrow>
               m0 \<noteq> [] \<and> i < li \<and> li \<le> length s)
        \<and> (\<forall>s i acc. code_while p s i acc \<noteq> None \<and> log_while p s i acc \<noteq> None)
        \<and> (\<forall>s i. length (exec_all (regex p) s i) \<le> length s - i)"
    by (rule ballI)
  from a b' d e show ?thesis by (intro conjI)
qed

theorem C9_total_witness:
  "CODE_PATTERNS ! 8 \<in> set CODE_PATTERNS \<union> set TERMINAL_PATTERNS
   \<and> global (regex (CODE_PATTERNS ! 8))
   \<and> (\<forall>s i acc. code_while (CODE_PATTERNS ! 8) s i acc \<noteq> None
                  \<and> log_while (CODE_PATTERNS ! 8) s i acc \<noteq> None)
   \<and> (\<forall>s i. length (exec_all (regex (CODE_PATTERNS ! 8)) s i) \<le> length s - i)
   \<and> (\<exists>r. analyzeCode ex_code ex_logs = Some r)"
proof -
  have "length CODE_PATTERNS = 27"
    by (simp add: CODE_PATTERNS_def)
  then have "CODE_PATTERNS ! 8 \<in> set CODE_PATTERNS"
    by simp
  then have mem: "CODE_PATTERNS ! 8 \<in> set CODE_PATTERNS \<union> set TERMINAL_PATTERNS"
    by (rule UnI1)
  note c9 = C9_total [of ex_code ex_logs]
  from c9 have "\<forall>p \<in> set CODE_PATTERNS \<union> set TERMINAL_PATTERNS.
        global (regex p)
        \<and> (\<forall>s i idx m0 li. regex_exec (regex p) s i = (Some (idx, m0), li) \<longrightarrow>
               m0 \<noteq> [] \<and> i < li \<and> li \<le> length s)
        \<and> (\<forall>s i acc. code_while p s i acc \<noteq> None \<and> log_while p s i acc \<noteq> None)
        \<and> (\<forall>s i. length (exec_all (regex p) s i) \<le> length s - i)"
    by (elim conjE)
  note q = bspec [OF this mem]
  note a = q [THEN conjunct1]
  note b = q [THEN conjunct2, THEN conjunct2, THEN conjunct1]
  note c = q [THEN conjunct2, THEN conjunct2, THEN conjunct2]
  note d = c9 [THEN conjunct1]
  from mem a b c d show ?thesis by (intro conjI)
qed

section \<open>The claim about the \<open>var\<close> declaration\<close>

lemma search_finds:
  assumes "\<And>prev. matcher (ignoreCase re) (multiline re) (source re) (prev, zs) \<noteq> []"
  shows "search re i prev (ys @ zs) \<noteq> None"
proof (induction ys arbitrary: i prev)
  case Nil
  from assms [of prev] show ?case
    by (cases zs) (auto split: list.splits)
next
  case (Cons y ys)
  then show ?case
    by (auto split: list.splits)
qed

definition var_rx :: rx where
  "var_rx = seqs [lit ''var'', Plus sp, Plus wd]"

lemma var_rule_regex: "regex (CODE_PATTERNS ! 8) = re_g var_rx"
  by (simp add: CODE_PATTERNS_def rule_def var_rx_def)

lemma var_rule_fields:
  "pcategory (CODE_PATTERNS ! 8) = js ''Code Quality''"
  "ptype (CODE_PATTERNS ! 8) = Warning"
  "pmessage (CODE_PATTERNS ! 8) = js ''Using 'var' instead of 'let' or 'const'' @ [39]"
  by (simp_all add: CODE_PATTERNS_def rule_def)

lemma var_rule_mem: "CODE_PATTERNS ! 8 \<in> set CODE_PATTERNS"
proof -
  have "length CODE_PATTERNS = 27"
    by (simp add: CODE_PATTERNS_def)
  then show ?thesis
    by simp
qed

lemma star_stop: "f st = [] \<Longrightarrow> star f st = [st]"
  by (subst star.simps) simp

lemma var_rx_matches:
  "matcher False False var_rx (prev, js ''var x = 1;'' @ suf) \<noteq> []"
  by (simp add: var_rx_def seqs_def lit_def sp_def wd_def js_def step_if_def canonicalize_def
      is_space_def is_word_def star_stop)

lemma exec_all_first:
  assumes "search re 0 (char_before s 0) s = Some (idx, m0)"
  shows "(idx, m0) \<in> set (exec_all re s 0)"
proof -
  from assms have "\<exists>li. regex_exec re s 0 = (Some (idx, m0), li)"
    by (simp add: regex_exec_def del: search.simps)
  then obtain li where "regex_exec re s 0 = (Some (idx, m0), li)" ..
  then show ?thesis
    by (subst exec_all.simps) simp
qed

lemma var_rx_search:
  "search (re_g var_rx) i prev (pre @ js ''var x = 1;'' @ suf) \<noteq> None"
proof (rule search_finds)
  fix prev'
  have "ignoreCase (re_g var_rx) = False" "multiline (re_g var_rx) = False"
    "source (re_g var_rx) = var_rx"
    by (simp_all add: re_g_def)
  then show "matcher (ignoreCase (re_g var_rx)) (multiline (re_g var_rx)) (source (re_g var_rx))
            (prev', js ''var x = 1;'' @ suf) \<noteq> []"
    by (simp only: var_rx_matches not_False_eq_True)
qed

lemma var_nonblank: "trim (pre @ js ''var x = 1;'' @ suf) \<noteq> []"
proof (rule trim_nonblank)
  show "118 \<in> set (pre @ js ''var x = 1;'' @ suf)" by (simp add: js_def)
  show "\<not> is_space 118" by (simp add: is_space_def)
qed

definition ex2_code :: jsstring where
  "ex2_code = js ''var x = 1; var y = 2;''"

text \<open>The findings that the claim counts: those with the message of the \<open>var\<close> rule.\<close>

definition is_var_finding :: "issue \<Rightarrow> bool" where
  "is_var_finding i =
     (category i = js ''Code Quality'' \<and> type i = Warning
      \<and> message i = js ''Using 'var' instead of 'let' or 'const'' @ [39])"

definition is_var_rule :: "pattern \<Rightarrow> bool" where
  "is_var_rule p =
     (pcategory p = js ''Code Quality'' \<and> ptype p = Warning
      \<and> pmessage p = js ''Using 'var' instead of 'let' or 'const'' @ [39])"

lemma var_rule_unique: "filter is_var_rule CODE_PATTERNS = [CODE_PATTERNS ! 8]"
  by code_simp

lemma is_var_code_finding: "is_var_finding (code_finding s m) = is_var_rule (fst m)"
  by (cases m) (simp add: is_var_finding_def is_var_rule_def code_issue_def)

lemma not_var_log_finding:
  assumes "i \<in> set (log_findings logs)"
  shows "\<not> is_var_finding i"
proof -
  from assms obtain p idx m0 where p: "p \<in> set TERMINAL_PATTERNS"
    and i: "i = log_finding logs (p, idx, m0)"
    by (rule log_findings_origin)
  from categories_disjoint var_rule_mem p
  have "pcategory (CODE_PATTERNS ! 8) \<noteq> pcategory p"
    by (auto simp: list_all_iff)
  then have "category i \<noteq> js ''Code Quality''"
    by (simp add: i log_issue_def var_rule_fields)
  then show ?thesis
    by (simp add: is_var_finding_def)
qed

lemma count_rule_matches:
  "length (filter (\<lambda>m. Q (fst m)) (concat (map (\<lambda>p. map (Pair p) (E p)) ps)))
     = sum_list (map (\<lambda>p. length (E p)) (filter Q ps))"
  by (induction ps) (simp_all add: comp_def)

lemma count_var_findings:
  assumes "trim s \<noteq> []"
  shows "length (filter is_var_finding (issues (finish (code_findings s @ log_findings logs))))
           = length (exec_all (regex (CODE_PATTERNS ! 8)) s 0)"
proof -
  have "filter is_var_finding (log_findings logs) = []"
    by (simp add: filter_empty_conv not_var_log_finding)
  then have "length (filter is_var_finding (code_findings s @ log_findings logs))
               = length (filter is_var_finding (code_findings s))"
    by simp
  also have "\<dots> = length (filter (\<lambda>m. is_var_rule (fst m)) (code_matches s))"
    by (simp add: code_findings_def comp_def is_var_code_finding)
  also from assms have "\<dots> = sum_list (map (\<lambda>p. length (exec_all (regex p) s 0))
                                    (filter is_var_rule CODE_PATTERNS))"
    using count_rule_matches [of is_var_rule "\<lambda>p. exec_all (regex p) s 0" CODE_PATTERNS]
    by (simp only: code_matches_def matches_of_def if_False)
  also have "\<dots> = length (exec_all (regex (CODE_PATTERNS ! 8)) s 0)"
    by (simp add: var_rule_unique)
  finally have "length (filter is_var_finding (code_findings s @ log_findings logs))
                  = length (exec_all (regex (CODE_PATTERNS ! 8)) s 0)" .
  moreover have "length (filter is_var_finding (issues (finish (code_findings s @ log_findings logs))))
                   = length (filter is_var_finding (code_findings s @ log_findings logs))"
    by (simp only: issues_finish filter_sort length_sort)
  ultimately show ?thesis by simp
qed

lemma var_rx_single: "exec_all (re_g var_rx) (js ''var x = 1;'') 0 = [(0, js ''var x'')]"
  by code_simp

lemma var_exec_nonempty: "exec_all (re_g var_rx) (pre @ js ''var x = 1;'' @ suf) 0 \<noteq> []"
proof -
  define s where "s = pre @ js ''var x = 1;'' @ suf"
  have "search (re_g var_rx) 0 (char_before s 0) s \<noteq> None"
    unfolding s_def by (rule var_rx_search)
  then obtain m where m: "search (re_g var_rx) 0 (char_before s 0) s = Some m"
    by (cases "search (re_g var_rx) 0 (char_before s 0) s") simp_all
  obtain idx m0 where "m = (idx, m0)" by (cases m)
  with m have "search (re_g var_rx) 0 (char_before s 0) s = Some (idx, m0)" by simp
  then have "(idx, m0) \<in> set (exec_all (re_g var_rx) s 0)"
    by (rule exec_all_first)
  then have "exec_all (re_g var_rx) s 0 \<noteq> []"
    by (cases "exec_all (re_g var_rx) s 0") simp_all
  then show ?thesis
    unfolding s_def .
qed

lemma ex_var_count: "length (exec_all (re_g var_rx) ex_code 0) = 1"
  by code_simp

lemma ex2_var_count: "length (exec_all (re_g var_rx) ex2_code 0) = 2"
  by code_simp

text \<open>
  C8, as the code has it: for every code that contains \<open>var x = 1;\<close> and every terminal
  output, the number of findings of the report with category Code Quality, severity
  warning and the message of the \<open>var\<close> rule is the number of matches of the \<open>var\<close> rule
  in the code (found from left to right, each search starting where the previous match
  ended), and that number is at least one. For the code \<open>var x = 1;\<close> the rule has
  exactly one match.
\<close>

theorem C8_var_findings_count:
  "(\<exists>r. analyzeCode (pre @ js ''var x = 1;'' @ suf) logs = Some r
      \<and> length (filter is_var_finding (issues r))
          = length (exec_all (re_g var_rx) (pre @ js ''var x = 1;'' @ suf) 0))
   \<and> 1 \<le> length (exec_all (re_g var_rx) (pre @ js ''var x = 1;'' @ suf) 0)
   \<and> regex (CODE_PATTERNS ! 8) = re_g var_rx
   \<and> exec_all (re_g var_rx) (js ''var x = 1;'') 0 = [(0, js ''var x'')]"
proof -
  let ?s = "pre @ js ''var x = 1;'' @ suf"
  let ?r = "finish (code_findings ?s @ log_findings logs)"
  have a: "\<exists>r. analyzeCode ?s logs = Some r
      \<and> length (filter is_var_finding (issues r)) = length (exec_all (re_g var_rx) ?s 0)"
  proof (intro exI conjI)
    show "analyzeCode ?s logs = Some ?r"
      by (rule analyzeCode_eq)
    from count_var_findings [OF var_nonblank, of pre suf logs]
    show "length (filter is_var_finding (issues ?r)) = length (exec_all (re_g var_rx) ?s 0)"
      by (simp only: var_rule_regex)
  qed
  from var_exec_nonempty [of pre suf]
  have b: "1 \<le> length (exec_all (re_g var_rx) ?s 0)"
    by (cases "exec_all (re_g var_rx) ?s 0") simp_all
  from a b var_rule_regex var_rx_single show ?thesis by (intro conjI)
qed

theorem C8_var_findings_count_witness:
  "(\<exists>r. analyzeCode ex_code ex_logs = Some r
       \<and> length (filter is_var_finding (issues r)) = 1)
   \<and> (\<exists>r. analyzeCode ex2_code [] = Some r
       \<and> length (filter is_var_finding (issues r)) = 2)"
proof -
  have e1: "ex_code = (js ''a'' @ [10] @ js ''b'' @ [10]) @ js ''var x = 1;'' @ []"
    by (simp add: ex_code_def)
  have e2: "ex2_code = [] @ js ''var x = 1;'' @ js '' var y = 2;''"
    by (simp add: ex2_code_def js_def)
  have "\<exists>r. analyzeCode ex_code ex_logs = Some r
      \<and> length (filter is_var_finding (issues r)) = length (exec_all (re_g var_rx) ex_code 0)"
    unfolding e1 by (rule C8_var_findings_count [THEN conjunct1])
  then have a: "\<exists>r. analyzeCode ex_code ex_logs = Some r
      \<and> length (filter is_var_finding (issues r)) = 1"
    unfolding ex_var_count .
  have "\<exists>r. analyzeCode ex2_code [] = Some r
      \<and> length (filter is_var_finding (issues r)) = length (exec_all (re_g var_rx) ex2_code 0)"
    unfolding e2 by (rule C8_var_findings_count [THEN conjunct1])
  then have b: "\<exists>r. analyzeCode ex2_code [] = Some r
      \<and> length (filter is_var_finding (issues r)) = 2"
    unfolding ex2_var_count .
  from a b show ?thesis by (rule conjI)
qed

text \<open>
  The claim as stated fails: the code below contains \<open>var x = 1;\<close>, and its report has
  two findings with category Code Quality and severity warning, both from the \<open>var\<close>
  rule.
\<close>

definition ex2_var_issue :: issue where
  "ex2_var_issue =
     \<lparr>type = Warning, category = js ''Code Quality'',
      message = js ''Using 'var' instead of 'let' or 'const'' @ [39],
      line = Some 1,
      suggestion = Some (js ''Use 'const' for constants, 'let' for variables that change''),
      code = None\<rparr>"

definition count_pair :: "jsstring \<Rightarrow> severity \<Rightarrow> issue list \<Rightarrow> nat" where
  "count_pair c t xs = length (filter (\<lambda>i. category i = c \<and> type i = t) xs)"

lemma ex2_code_findings: "code_findings ex2_code = [ex2_var_issue, ex2_var_issue]"
  by code_simp

lemma ex2_finish:
  "finish [ex2_var_issue, ex2_var_issue] =
     \<lparr>issues = [ex2_var_issue, ex2_var_issue],
      summary = js ''Found 2 warnings and 0 info messages. Consider addressing warnings for better code quality.'',
      stats = \<lparr>errors = 0, warnings = 2, info = 0\<rparr>\<rparr>"
  by code_simp

theorem C8_counterexample:
  "analyzeCode ex2_code [] =
     Some \<lparr>issues = [ex2_var_issue, ex2_var_issue],
           summary = js ''Found 2 warnings and 0 info messages. Consider addressing warnings for better code quality.'',
           stats = \<lparr>errors = 0, warnings = 2, info = 0\<rparr>\<rparr>
   \<and> count_pair (js ''Code Quality'') Warning [ex2_var_issue, ex2_var_issue] = 2"
proof -
  have "log_findings [] = []"
    using matches_of_blank [of "[]"] by (simp add: log_findings_def log_matches_def)
  then have "analyzeCode ex2_code [] = Some (finish [ex2_var_issue, ex2_var_issue])"
    by (simp add: analyzeCode_eq ex2_code_findings)
  moreover have "count_pair (js ''Code Quality'') Warning [ex2_var_issue, ex2_var_issue] = 2"
    by (simp add: count_pair_def ex2_var_issue_def)
  ultimately show ?thesis
    by (simp only: ex2_finish simp_thms)
qed

end
